theory Spec2Isabelle
  imports Main "HOL-Library.Sublist"
begin

chapter \<open>Definitions\<close>

section \<open>Data model of \<^verbatim>\<open>src/utils/bluesky.ts\<close>\<close>

text \<open>
  The interfaces \<^verbatim>\<open>BlueskyAuthor\<close>, \<^verbatim>\<open>BlueskyRecord\<close>, \<^verbatim>\<open>BlueskyPost\<close> and
  \<^verbatim>\<open>BlueskyFeedItem\<close>, restricted to the fields that the filter, the thread builder and
  the cache read. Optional fields (\<^verbatim>\<open>reply?\<close>, \<^verbatim>\<open>$type?\<close>, \<^verbatim>\<open>reason?\<close>) are options.
  The filter tests \<^verbatim>\<open>post.record.text !== undefined\<close>, so \<^verbatim>\<open>text\<close> is an option as
  well, although the interface declares it as a plain string.

  \<^verbatim>\<open>indexedAt\<close> is an ISO date string in the source and is only ever read through
  \<^verbatim>\<open>new Date(indexedAt).getTime()\<close>; the field here holds that number of milliseconds.
\<close>

record author =
  author_did :: string
  author_handle :: string

record reply_ref =
  parent_uri :: string
  root_uri :: string

record bluesky_record =
  record_text :: "string option"
  record_createdAt :: string
  record_reply :: "reply_ref option"
  record_type :: "string option"

record post =
  post_uri :: string
  post_cid :: string
  post_author :: author
  post_record :: bluesky_record
  post_indexedAt :: int

record reason =
  reason_type :: string

record feed_item =
  item_post :: post
  item_reason :: "reason option"

section \<open>The thread filter\<close>

text \<open>
  What one \<^verbatim>\<open>getPostThread\<close> request for a parent URI can do inside
  \<^verbatim>\<open>isReplyInSelfOnlyThread\<close>:
  \<^item> \<open>FetchThrows\<close>: \<^verbatim>\<open>fetch\<close> or \<^verbatim>\<open>response.json()\<close> rejects;
  \<^item> \<open>StatusNotOk\<close>: the response arrives with \<^verbatim>\<open>ok = false\<close>;
  \<^item> \<open>OkNoThread\<close>: the body has no \<^verbatim>\<open>thread\<close> member, so \<^verbatim>\<open>parentData.thread.post\<close>
    throws a TypeError;
  \<^item> \<open>OkThread None\<close>: the body has a \<^verbatim>\<open>thread\<close> without a \<^verbatim>\<open>post\<close> member (the
    not-found and blocked views of the API), so \<^verbatim>\<open>parentData.thread.post\<close> is undefined;
  \<^item> \<open>OkThread (Some p)\<close>: the parent post \<open>p\<close>.
  The network is a function from the requested URI to such an outcome.
\<close>

datatype fetch_result =
    FetchThrows
  | StatusNotOk
  | OkNoThread
  | OkThread "post option"

type_synonym network = "string \<Rightarrow> fetch_result"

text \<open>
  The \<^verbatim>\<open>while (currentPost)\<close> loop of \<^verbatim>\<open>isReplyInSelfOnlyThread\<close>. The arguments are
  the loop variables \<^verbatim>\<open>currentPost\<close> (\<open>None\<close> for undefined) and \<^verbatim>\<open>checkedAuthors\<close>.
  The result \<open>None\<close> means that the loop never returns; every exception inside the
  \<^verbatim>\<open>try\<close> block ends in the \<^verbatim>\<open>catch\<close> arm, which returns false.
\<close>

definition chain_verdict :: "string \<Rightarrow> string set \<Rightarrow> bool" where
  "chain_verdict userDid checkedAuthors \<longleftrightarrow>
     card checkedAuthors = 1 \<and> userDid \<in> checkedAuthors"

partial_function (option) reply_chain_loop ::
  "network \<Rightarrow> string \<Rightarrow> post option \<Rightarrow> string set \<Rightarrow> bool option" where
  "reply_chain_loop fetch userDid currentPost checkedAuthors =
     (case currentPost of
        None \<Rightarrow> Some (chain_verdict userDid checkedAuthors)
      | Some p \<Rightarrow>
          (let checked = insert (author_did (post_author p)) checkedAuthors in
           if author_did (post_author p) \<noteq> userDid then Some False
           else
             (case record_reply (post_record p) of
                None \<Rightarrow> Some (chain_verdict userDid checked)
              | Some r \<Rightarrow>
                  (case fetch (parent_uri r) of
                     FetchThrows \<Rightarrow> Some False
                   | StatusNotOk \<Rightarrow> Some False
                   | OkNoThread \<Rightarrow> Some False
                   | OkThread next_post \<Rightarrow>
                       reply_chain_loop fetch userDid next_post checked))))"

definition isReplyInSelfOnlyThread :: "network \<Rightarrow> post \<Rightarrow> string \<Rightarrow> bool option" where
  "isReplyInSelfOnlyThread fetch p userDid = reply_chain_loop fetch userDid (Some p) {}"

text \<open>
  The \<^verbatim>\<open>for (const item of feedItems)\<close> loop of \<^verbatim>\<open>filterPostsForSelfOnlyThreads\<close>, with
  the array \<^verbatim>\<open>filteredPosts\<close> as accumulator. The result is \<open>None\<close> when one of the
  awaited chain walks never returns.
\<close>

definition is_repost_reason :: "feed_item \<Rightarrow> bool" where
  "is_repost_reason item \<longleftrightarrow>
     (case item_reason item of
        None \<Rightarrow> False
      | Some r \<Rightarrow> reason_type r = ''app.bsky.feed.defs#reasonRepost'')"

definition is_repost_record :: "feed_item \<Rightarrow> bool" where
  "is_repost_record item \<longleftrightarrow>
     record_type (post_record (item_post item)) = Some ''app.bsky.feed.repost''"

fun filter_loop ::
  "network \<Rightarrow> string \<Rightarrow> feed_item list \<Rightarrow> feed_item list \<Rightarrow> feed_item list option" where
  "filter_loop fetch userDid [] filteredPosts = Some filteredPosts"
| "filter_loop fetch userDid (item # rest) filteredPosts =
     (if is_repost_reason item then filter_loop fetch userDid rest filteredPosts
      else if is_repost_record item then filter_loop fetch userDid rest filteredPosts
      else if record_text (post_record (item_post item)) \<noteq> None then
        (if record_reply (post_record (item_post item)) = None
         then filter_loop fetch userDid rest (filteredPosts @ [item])
         else
           (case isReplyInSelfOnlyThread fetch (item_post item) userDid of
              None \<Rightarrow> None
            | Some isValidReply \<Rightarrow>
                if isValidReply
                then filter_loop fetch userDid rest (filteredPosts @ [item])
                else filter_loop fetch userDid rest filteredPosts))
      else filter_loop fetch userDid rest filteredPosts)"

definition filterPostsForSelfOnlyThreads ::
  "network \<Rightarrow> feed_item list \<Rightarrow> string \<Rightarrow> feed_item list option" where
  "filterPostsForSelfOnlyThreads fetch feedItems userDid =
     filter_loop fetch userDid feedItems []"

text \<open>
  Vocabulary for statements about the chain walk. \<open>parent_chain fetch ps\<close>: every post
  of \<open>ps\<close> but the last has a reply reference, and the request for its parent URI
  answered with the next post of \<open>ps\<close>. \<open>walk_stops_at\<close>: the loop body, run on this post,
  leaves the loop (foreign author, no reply reference, or a request that brings no post).
  \<open>entry_kept\<close>: the condition under which the loop body of the filter pushes the entry.
\<close>

fun parent_chain :: "network \<Rightarrow> post list \<Rightarrow> bool" where
  "parent_chain fetch [] = True"
| "parent_chain fetch [p] = True"
| "parent_chain fetch (p # q # ps) =
     ((case record_reply (post_record p) of
         None \<Rightarrow> False
       | Some r \<Rightarrow> fetch (parent_uri r) = OkThread (Some q)) \<and>
      parent_chain fetch (q # ps))"

definition walk_stops_at :: "network \<Rightarrow> string \<Rightarrow> post \<Rightarrow> bool" where
  "walk_stops_at fetch userDid p \<longleftrightarrow>
     author_did (post_author p) \<noteq> userDid \<or>
     (case record_reply (post_record p) of
        None \<Rightarrow> True
      | Some r \<Rightarrow>
          (case fetch (parent_uri r) of
             OkThread (Some q) \<Rightarrow> False
           | _ \<Rightarrow> True))"

definition chain_stops :: "network \<Rightarrow> string \<Rightarrow> post option \<Rightarrow> bool" where
  "chain_stops fetch userDid currentPost \<longleftrightarrow>
     (case currentPost of
        None \<Rightarrow> True
      | Some p \<Rightarrow>
          \<exists>ps. parent_chain fetch (p # ps) \<and> walk_stops_at fetch userDid (last (p # ps)))"

definition entry_kept :: "network \<Rightarrow> string \<Rightarrow> feed_item \<Rightarrow> bool" where
  "entry_kept fetch userDid item \<longleftrightarrow>
     \<not> is_repost_reason item \<and> \<not> is_repost_record item \<and>
     record_text (post_record (item_post item)) \<noteq> None \<and>
     (record_reply (post_record (item_post item)) = None \<or>
      isReplyInSelfOnlyThread fetch (item_post item) userDid = Some True)"

section \<open>The thread builder\<close>

text \<open>
  \<^verbatim>\<open>groupPostsIntoThreads\<close> builds an object graph: \<^verbatim>\<open>postMap\<close> holds one
  \<^verbatim>\<open>BlueskyThreadItem\<close> object per URI, and the arrays \<^verbatim>\<open>children\<close> and \<^verbatim>\<open>threadRoots\<close>
  hold references to these objects, which are mutated after they have been pushed. The
  first pass leaves every live object as the value of exactly one key of \<^verbatim>\<open>postMap\<close>
  (a later \<^verbatim>\<open>set\<close> for the same URI replaces an object that nothing refers to yet), and
  the later passes only touch objects obtained from \<^verbatim>\<open>postMap.get\<close>. So the store is
  \<^verbatim>\<open>postMap\<close> itself and a reference to an object is its key, the URI. The parameter
  \<^verbatim>\<open>_userDid\<close> is not used by the source and is left out.
\<close>

record thread_node =
  node_item :: feed_item
  node_children :: "string list"
  node_isThreadRoot :: bool

type_synonym post_map = "string \<rightharpoonup> thread_node"

definition entry_uri :: "feed_item \<Rightarrow> string" where
  "entry_uri item = post_uri (item_post item)"

definition entry_reply :: "feed_item \<Rightarrow> reply_ref option" where
  "entry_reply item = record_reply (post_record (item_post item))"

text \<open>First pass: \<^verbatim>\<open>postMap.set(item.post.uri, {...item, children: [], isThreadRoot: false})\<close>.\<close>

definition index_post :: "feed_item \<Rightarrow> post_map \<Rightarrow> post_map" where
  "index_post item postMap =
     postMap(entry_uri item \<mapsto>
       \<lparr>node_item = item, node_children = [], node_isThreadRoot = False\<rparr>)"

text \<open>
  Second pass, the body of \<^verbatim>\<open>posts.forEach\<close> on the state \<^verbatim>\<open>(postMap, threadRoots)\<close>.
  \<^verbatim>\<open>parent.children.push(postData)\<close> appends the reference to the child to the parent
  object; when the parent URI is the entry's own URI this is the same object.
\<close>

definition mark_root :: "string \<Rightarrow> thread_node \<Rightarrow> post_map \<times> string list \<Rightarrow> post_map \<times> string list" where
  "mark_root uri postData st =
     ((fst st)(uri \<mapsto> postData\<lparr>node_isThreadRoot := True\<rparr>), snd st @ [uri])"

definition link_post :: "feed_item \<Rightarrow> post_map \<times> string list \<Rightarrow> post_map \<times> string list" where
  "link_post item st =
     (case fst st (entry_uri item) of
        None \<Rightarrow> st
      | Some postData \<Rightarrow>
          (case entry_reply item of
             Some r \<Rightarrow>
               (case fst st (parent_uri r) of
                  Some parent \<Rightarrow>
                    ((fst st)(parent_uri r \<mapsto>
                        parent\<lparr>node_children := node_children parent @ [entry_uri item]\<rparr>),
                     snd st)
                | None \<Rightarrow> mark_root (entry_uri item) postData st)
           | None \<Rightarrow> mark_root (entry_uri item) postData st))"

text \<open>
  \<^verbatim>\<open>new Date(x.post.indexedAt).getTime()\<close> for the object behind a reference. Every
  reference that the builder creates is a key of \<^verbatim>\<open>postMap\<close>; the value for a missing key
  is never used.
\<close>

definition node_time :: "post_map \<Rightarrow> string \<Rightarrow> int" where
  "node_time postMap uri =
     (case postMap uri of
        None \<Rightarrow> 0
      | Some n \<Rightarrow> post_indexedAt (item_post (node_item n)))"

text \<open>
  \<^verbatim>\<open>Array.prototype.sort\<close> is a stable sort; with the comparator
  \<^verbatim>\<open>time(a) - time(b)\<close> it is \<^const>\<open>sort_key\<close> on the time, and with
  \<^verbatim>\<open>time(b) - time(a)\<close> it is \<^const>\<open>sort_key\<close> on the negated time.

  \<^verbatim>\<open>sortThreadChildren\<close> recurses along the references. Its first argument bounds the
  depth of nested calls: the result \<open>None\<close> stands for a recursion that exceeds it (on a
  cycle of references the JavaScript recursion ends in a RangeError, which rejects the
  promise of \<^verbatim>\<open>groupPostsIntoThreads\<close>). \<open>sortEach\<close> is
  \<^verbatim>\<open>xs.forEach((x) => sortThreadChildren(x))\<close>.
\<close>

fun sortThreadChildren :: "nat \<Rightarrow> string \<Rightarrow> post_map \<Rightarrow> post_map option"
  and sortEach :: "nat \<Rightarrow> string list \<Rightarrow> post_map \<Rightarrow> post_map option" where
  "sortThreadChildren 0 thread postMap = None"
| "sortThreadChildren (Suc depth) thread postMap =
     (case postMap thread of
        None \<Rightarrow> Some postMap
      | Some n \<Rightarrow>
          (let sorted_children = sort_key (node_time postMap) (node_children n)
           in sortEach depth sorted_children
                (postMap(thread \<mapsto> n\<lparr>node_children := sorted_children\<rparr>))))"
| "sortEach depth [] postMap = Some postMap"
| "sortEach depth (child # rest) postMap =
     (case sortThreadChildren depth child postMap of
        None \<Rightarrow> None
      | Some postMap' \<Rightarrow> sortEach depth rest postMap')"

definition build_threads :: "feed_item list \<Rightarrow> post_map \<times> string list" where
  "build_threads posts = fold link_post posts (fold index_post posts Map.empty, [])"

definition groupPostsIntoThreads ::
  "nat \<Rightarrow> feed_item list \<Rightarrow> (post_map \<times> string list) option" where
  "groupPostsIntoThreads depth posts =
     (let (postMap, threadRoots) = build_threads posts;
          sorted_roots = sort_key (\<lambda>uri. - node_time postMap uri) threadRoots
      in case sortEach depth sorted_roots postMap of
           None \<Rightarrow> None
         | Some postMap' \<Rightarrow> Some (postMap', sorted_roots))"

text \<open>
  Vocabulary for statements about the builder: the URIs of a page, whether an entry's
  parent is in the page's index, and whether an entry is a reply to a given URI.
\<close>

definition page_uris :: "feed_item list \<Rightarrow> string set" where
  "page_uris posts = entry_uri ` set posts"

definition parent_in_page :: "string set \<Rightarrow> feed_item \<Rightarrow> bool" where
  "parent_in_page uris item \<longleftrightarrow>
     (case entry_reply item of
        None \<Rightarrow> False
      | Some r \<Rightarrow> parent_uri r \<in> uris)"

definition replies_to :: "string \<Rightarrow> feed_item \<Rightarrow> bool" where
  "replies_to uri item \<longleftrightarrow>
     (case entry_reply item of
        None \<Rightarrow> False
      | Some r \<Rightarrow> parent_uri r = uri)"

text \<open>
  \<open>feed_roots\<close> and \<open>feed_replies\<close> list, in feed order, the URIs of the entries without
  a parent in the page and of the entries that reply to a given URI.
\<close>

definition feed_replies :: "string \<Rightarrow> feed_item list \<Rightarrow> string list" where
  "feed_replies uri posts = map entry_uri (filter (replies_to uri) posts)"

definition feed_roots :: "string set \<Rightarrow> feed_item list \<Rightarrow> string list" where
  "feed_roots uris posts = map entry_uri (filter (\<lambda>e. \<not> parent_in_page uris e) posts)"

text \<open>
  \<open>linked_to uris xs st st'\<close> describes the effect of the second pass over the entries
  \<open>xs\<close>: the roots and the children that were pushed, object by object.
\<close>

definition linked_to ::
  "string set \<Rightarrow> feed_item list \<Rightarrow> post_map \<times> string list \<Rightarrow> post_map \<times> string list \<Rightarrow> bool" where
  "linked_to uris xs st st' \<longleftrightarrow>
     snd st' = snd st @ feed_roots uris xs \<and>
     dom (fst st') = uris \<and>
     (\<forall>u n. fst st u = Some n \<longrightarrow>
        (\<exists>n'. fst st' u = Some n' \<and> node_item n' = node_item n \<and>
              node_children n' = node_children n @ feed_replies u xs \<and>
              (node_isThreadRoot n' \<longleftrightarrow> node_isThreadRoot n \<or> u \<in> set (feed_roots uris xs))))"

text \<open>
  The sorting passes change nothing but the order of \<^verbatim>\<open>children\<close> arrays:
  \<open>sorted_from m m'\<close> says that every object of \<open>m'\<close> is the object of \<open>m\<close> under the same
  key, with its children either untouched or sorted. \<open>child_edges\<close> is the reference
  graph, and \<open>children_sorted\<close> says that one object's children are in ascending order.
\<close>

definition sort_node :: "post_map \<Rightarrow> thread_node \<Rightarrow> thread_node" where
  "sort_node m n = n\<lparr>node_children := sort_key (node_time m) (node_children n)\<rparr>"

definition sorted_from :: "post_map \<Rightarrow> post_map \<Rightarrow> bool" where
  "sorted_from m m' \<longleftrightarrow>
     (\<forall>u. case m u of
            None \<Rightarrow> m' u = None
          | Some n \<Rightarrow> m' u = Some n \<or> m' u = Some (sort_node m n))"

definition children_sorted :: "post_map \<Rightarrow> string \<Rightarrow> bool" where
  "children_sorted m u \<longleftrightarrow>
     (case m u of
        None \<Rightarrow> True
      | Some n \<Rightarrow> sorted (map (node_time m) (node_children n)))"

definition child_edges :: "post_map \<Rightarrow> (string \<times> string) set" where
  "child_edges m = {(u, v). \<exists>n. m u = Some n \<and> v \<in> set (node_children n)}"

text \<open>The objects that can be reached from an object by one or more references.\<close>

definition descendants :: "(string \<times> string) set \<Rightarrow> string \<Rightarrow> string set" where
  "descendants E v = {w. (v, w) \<in> E\<^sup>+}"

section \<open>The cache\<close>

text \<open>
  The class \<^verbatim>\<open>Cache\<close> keeps \<^verbatim>\<open>CacheItem\<close> objects as JSON strings in
  \<^verbatim>\<open>localStorage\<close>. A string under a key is either one that \<^verbatim>\<open>JSON.parse\<close> rejects
  (\<open>Unparsable\<close>) or the serialisation of a cache item (\<open>Serialised\<close>); a cache item
  survives \<^verbatim>\<open>JSON.stringify\<close> and \<^verbatim>\<open>JSON.parse\<close> unchanged. The store is a map from
  keys to such strings. Reading and removing a key always succeed. Writing may fail:
  \<^verbatim>\<open>localStorage.setItem\<close> throws when the browser's quota is exceeded, and the \<^verbatim>\<open>catch\<close>
  arm of \<^verbatim>\<open>set\<close> swallows that. Whether the browser accepts a write is not a matter of
  the cache's own state, so it is an argument of every operation that writes
  (\<open>setItem_ok\<close>), like the clock.

  \<^verbatim>\<open>Date.now()\<close> is the argument \<open>now\<close> (milliseconds); one method call reads one
  clock value.
\<close>

record 'a cache_item =
  cache_data :: 'a
  cache_timestamp :: int
  cache_expiry :: int

datatype 'a stored = Unparsable | Serialised "'a cache_item"

type_synonym 'a local_storage = "string \<rightharpoonup> 'a stored"

definition CACHE_PREFIX :: string where
  "CACHE_PREFIX = ''bskyweb_cache_''"

definition DEFAULT_TTL :: int where
  "DEFAULT_TTL = 5 * 60 * 1000"

definition POSTS_TTL :: int where
  "POSTS_TTL = 2 * 60 * 1000"

definition PROFILE_TTL :: int where
  "PROFILE_TTL = 30 * 60 * 1000"

definition getKey :: "string \<Rightarrow> string" where
  "getKey key = CACHE_PREFIX @ key"

definition isExpired :: "int \<Rightarrow> 'a cache_item \<Rightarrow> bool" where
  "isExpired now item \<longleftrightarrow> now > cache_timestamp item + cache_expiry item"

text \<open>
  \<^verbatim>\<open>ttl || this.DEFAULT_TTL\<close>: an absent and a zero \<^verbatim>\<open>ttl\<close> both give the default. When
  \<^verbatim>\<open>setItem\<close> throws, the \<^verbatim>\<open>catch\<close> arm logs and the store stays as it was.
\<close>

definition cache_set ::
  "bool \<Rightarrow> int \<Rightarrow> string \<Rightarrow> 'a \<Rightarrow> int option \<Rightarrow> 'a local_storage \<Rightarrow> 'a local_storage" where
  "cache_set setItem_ok now key data ttl storage =
     (let item = \<lparr>cache_data = data, cache_timestamp = now,
                  cache_expiry = (case ttl of
                                    None \<Rightarrow> DEFAULT_TTL
                                  | Some t \<Rightarrow> if t = 0 then DEFAULT_TTL else t)\<rparr>
      in if setItem_ok then storage(getKey key \<mapsto> Serialised item) else storage)"

definition cache_delete :: "string \<Rightarrow> 'a local_storage \<Rightarrow> 'a local_storage" where
  "cache_delete key storage = storage(getKey key := None)"

text \<open>
  \<^verbatim>\<open>get\<close> returns the value (\<open>None\<close> for \<^verbatim>\<open>null\<close>) and the store it leaves behind.
  The second case is the \<^verbatim>\<open>catch\<close> arm: it logs and returns \<^verbatim>\<open>null\<close>.
\<close>

definition cache_get :: "int \<Rightarrow> string \<Rightarrow> 'a local_storage \<Rightarrow> 'a option \<times> 'a local_storage" where
  "cache_get now key storage =
     (case storage (getKey key) of
        None \<Rightarrow> (None, storage)
      | Some Unparsable \<Rightarrow> (None, storage)
      | Some (Serialised item) \<Rightarrow>
          if isExpired now item then (None, cache_delete key storage)
          else (Some (cache_data item), storage))"

text \<open>
  \<^verbatim>\<open>PostsCacheData\<close>. The cache treats a cached thread as \<^verbatim>\<open>any\<close> and reads only
  \<^verbatim>\<open>thread.post?.uri\<close> from it: \<open>thread_post_uri\<close> is that value (\<open>None\<close> for
  undefined), \<open>thread_content\<close> is everything else.
\<close>

record 'c cached_thread =
  thread_post_uri :: "string option"
  thread_content :: 'c

record 'c posts_cache_data =
  cached_posts :: "'c cached_thread list"
  cached_cursor :: "string option"
  cached_handle :: string

type_synonym 'c posts_storage = "'c posts_cache_data local_storage"

definition posts_key :: "string \<Rightarrow> string" where
  "posts_key handle = ''posts_'' @ handle"

definition getPosts ::
  "int \<Rightarrow> string \<Rightarrow> 'c posts_storage \<Rightarrow> 'c posts_cache_data option \<times> 'c posts_storage" where
  "getPosts now handle storage = cache_get now (posts_key handle) storage"

definition setPosts ::
  "bool \<Rightarrow> int \<Rightarrow> string \<Rightarrow> 'c cached_thread list \<Rightarrow> string option \<Rightarrow> bool \<Rightarrow>
   'c posts_storage \<Rightarrow> 'c posts_storage" where
  "setPosts setItem_ok now handle posts cursor isInitial storage =
     (if isInitial then
        cache_set setItem_ok now (posts_key handle)
          \<lparr>cached_posts = posts, cached_cursor = cursor, cached_handle = handle\<rparr>
          (Some POSTS_TTL) storage
      else
        (case getPosts now handle storage of
           (Some existing, storage') \<Rightarrow>
             cache_set setItem_ok now (posts_key handle)
               \<lparr>cached_posts = cached_posts existing @ posts, cached_cursor = cursor,
                cached_handle = handle\<rparr>
               (Some POSTS_TTL) storage'
         | (None, storage') \<Rightarrow>
             cache_set setItem_ok now (posts_key handle)
               \<lparr>cached_posts = posts, cached_cursor = cursor, cached_handle = handle\<rparr>
               (Some POSTS_TTL) storage'))"

definition appendPosts ::
  "bool \<Rightarrow> int \<Rightarrow> string \<Rightarrow> 'c cached_thread list \<Rightarrow> string option \<Rightarrow>
   'c posts_storage \<Rightarrow> 'c posts_storage" where
  "appendPosts setItem_ok now handle newPosts newCursor storage =
     (case getPosts now handle storage of
        (Some existing, storage') \<Rightarrow>
          (let existingUris = set (map thread_post_uri (cached_posts existing));
               uniqueNewPosts = filter (\<lambda>thread. thread_post_uri thread \<notin> existingUris) newPosts
           in if length uniqueNewPosts > 0 then
                cache_set setItem_ok now (posts_key handle)
                  \<lparr>cached_posts = cached_posts existing @ uniqueNewPosts,
                   cached_cursor = newCursor, cached_handle = handle\<rparr>
                  (Some POSTS_TTL) storage'
              else storage')
      | (None, storage') \<Rightarrow> storage')"

section \<open>Example data\<close>

text \<open>
  Concrete posts, feeds and network answers on which the definitions are evaluated: a
  root post and a reply of the account \<open>ex_me\<close>, a reply to a post of another account,
  replies whose parent request brings no post, and a post that names itself as parent.
\<close>

definition ex_me :: string where
  "ex_me = ''did:plc:me''"

definition ex_other :: string where
  "ex_other = ''did:plc:other''"

definition ex_post :: "string \<Rightarrow> string \<Rightarrow> string option \<Rightarrow> int \<Rightarrow> post" where
  "ex_post uri did parent t =
     \<lparr>post_uri = uri, post_cid = ''cid'',
      post_author = \<lparr>author_did = did, author_handle = ''handle''\<rparr>,
      post_record =
        \<lparr>record_text = Some ''text'', record_createdAt = ''2025'',
         record_reply = map_option (\<lambda>p. \<lparr>parent_uri = p, root_uri = p\<rparr>) parent,
         record_type = Some ''app.bsky.feed.post''\<rparr>,
      post_indexedAt = t\<rparr>"

definition ex_entry :: "post \<Rightarrow> feed_item" where
  "ex_entry p = \<lparr>item_post = p, item_reason = None\<rparr>"

definition ex_root :: post where
  "ex_root = ex_post ''at://me/1'' ex_me None 10"

definition ex_self_reply :: post where
  "ex_self_reply = ex_post ''at://me/2'' ex_me (Some ''at://me/1'') 20"

definition ex_foreign_root :: post where
  "ex_foreign_root = ex_post ''at://other/1'' ex_other None 5"

definition ex_reply_to_other :: post where
  "ex_reply_to_other = ex_post ''at://me/3'' ex_me (Some ''at://other/1'') 30"

definition ex_reply_no_post :: post where
  "ex_reply_no_post = ex_post ''at://me/4'' ex_me (Some ''at://gone/1'') 40"

definition ex_reply_not_ok :: post where
  "ex_reply_not_ok = ex_post ''at://me/5'' ex_me (Some ''at://down/1'') 50"

definition ex_net :: network where
  "ex_net uri =
     (if uri = ''at://me/1'' then OkThread (Some ex_root)
      else if uri = ''at://other/1'' then OkThread (Some ex_foreign_root)
      else if uri = ''at://gone/1'' then OkThread None
      else StatusNotOk)"

definition ex_repost :: feed_item where
  "ex_repost =
     \<lparr>item_post = ex_root,
      item_reason = Some \<lparr>reason_type = ''app.bsky.feed.defs#reasonRepost''\<rparr>\<rparr>"

definition ex_feed :: "feed_item list" where
  "ex_feed = [ex_entry ex_reply_to_other, ex_repost, ex_entry ex_self_reply, ex_entry ex_root]"

definition ex_cyclic_post :: post where
  "ex_cyclic_post = ex_post ''at://me/9'' ex_me (Some ''at://me/9'') 1"

definition ex_cyclic_net :: network where
  "ex_cyclic_net uri = OkThread (Some ex_cyclic_post)"

text \<open>
  A page for the thread builder: two top-level posts (times 5 and 8), two replies to
  the second one (times 20 and 15) and a reply whose parent is not in the page. And a
  cache that holds the threads A and B for one handle, stored at time 0.
\<close>

definition ex_r1 :: feed_item where
  "ex_r1 = ex_entry (ex_post ''at://me/r1'' ex_me None 5)"

definition ex_r2 :: feed_item where
  "ex_r2 = ex_entry (ex_post ''at://me/r2'' ex_me None 8)"

definition ex_c1 :: feed_item where
  "ex_c1 = ex_entry (ex_post ''at://me/c1'' ex_me (Some ''at://me/r2'') 20)"

definition ex_c2 :: feed_item where
  "ex_c2 = ex_entry (ex_post ''at://me/c2'' ex_me (Some ''at://me/r2'') 15)"

definition ex_orphan :: feed_item where
  "ex_orphan = ex_entry (ex_post ''at://me/o1'' ex_me (Some ''at://me/earlier'') 6)"

definition ex_page :: "feed_item list" where
  "ex_page = [ex_r1, ex_c1, ex_orphan, ex_r2, ex_c2]"

definition ex_thread :: "string \<Rightarrow> unit cached_thread" where
  "ex_thread uri = \<lparr>thread_post_uri = Some uri, thread_content = ()\<rparr>"

definition ex_cached :: "unit posts_cache_data" where
  "ex_cached =
     \<lparr>cached_posts = [ex_thread ''at://me/A'', ex_thread ''at://me/B''],
      cached_cursor = Some ''cursor1'', cached_handle = ''alice''\<rparr>"

definition ex_cache_item :: "unit posts_cache_data cache_item" where
  "ex_cache_item = \<lparr>cache_data = ex_cached, cache_timestamp = 0, cache_expiry = POSTS_TTL\<rparr>"

definition ex_storage :: "unit posts_storage" where
  "ex_storage = [getKey (posts_key ''alice'') \<mapsto> Serialised ex_cache_item]"

definition ex_corrupt_storage :: "unit posts_storage" where
  "ex_corrupt_storage = [getKey (posts_key ''alice'') \<mapsto> Unparsable]"

chapter \<open>Properties\<close>

section \<open>The chain walk\<close>




lemma loop_returns_if_stops:
  "parent_chain fetch (p # ps) \<Longrightarrow> walk_stops_at fetch u (last (p # ps)) \<Longrightarrow>
   \<exists>b. reply_chain_loop fetch u (Some p) cs = Some b"
proof (induction ps arbitrary: p cs)
  case Nil
  then show ?case
    apply (subst reply_chain_loop.simps)
    apply (subst reply_chain_loop.simps)
    by (auto simp: walk_stops_at_def Let_def split: option.splits fetch_result.splits)
next
  case (Cons q ps)
  from Cons.prems(1) obtain r where r: "record_reply (post_record p) = Some r"
    "fetch (parent_uri r) = OkThread (Some q)" and ch: "parent_chain fetch (q # ps)"
    by (auto split: option.splits)
  from Cons.IH[OF ch, of "insert (author_did (post_author p)) cs"] Cons.prems(2)
  obtain b where "reply_chain_loop fetch u (Some q) (insert (author_did (post_author p)) cs) = Some b"
    by auto
  then show ?case using r
    by (subst reply_chain_loop.simps) (auto simp add: Let_def)
qed

lemma loop_stops_if_returns:
  assumes "reply_chain_loop fetch u cur cs = Some b"
  shows "chain_stops fetch u cur"
  using assms
proof (rule reply_chain_loop.raw_induct
    [rotated 1, where P = "\<lambda>fetch u cur cs b. chain_stops fetch u cur"], goal_cases)
  case (1 loop fetch u cur cs b)
  note IH = "1"(1) and prem = "1"(2)
  show "chain_stops fetch u cur"
  proof (cases cur)
    case None
    then show ?thesis by (simp add: chain_stops_def)
  next
    case (Some p)
    show ?thesis
    proof (cases "walk_stops_at fetch u p")
      case True
      then have "parent_chain fetch (p # []) \<and> walk_stops_at fetch u (last (p # []))" by simp
      then show ?thesis unfolding Some chain_stops_def option.case by blast
    next
      case False
      then obtain r q where a: "author_did (post_author p) = u"
        and r: "record_reply (post_record p) = Some r" and q: "fetch (parent_uri r) = OkThread (Some q)"
        by (auto simp: walk_stops_at_def split: option.splits fetch_result.splits)
      from prem Some a r q
      have "loop fetch u (Some q) (insert (author_did (post_author p)) cs) = Some b"
        by (simp add: Let_def)
      from IH[OF this] obtain ps where
        "parent_chain fetch (q # ps)" "walk_stops_at fetch u (last (q # ps))"
        by (auto simp: chain_stops_def)
      then have "parent_chain fetch (p # q # ps) \<and> walk_stops_at fetch u (last (p # q # ps))"
        using r q by simp
      then show ?thesis unfolding Some chain_stops_def option.case by blast
    qed
  qed
qed

section \<open>The filter loop\<close>

lemma filter_loop_Some:
  "filter_loop fetch u items acc = Some out \<Longrightarrow> out = acc @ filter (entry_kept fetch u) items"
proof (induction items arbitrary: acc)
  case Nil
  then show ?case by simp
next
  case (Cons item rest)
  show ?case
  proof (cases "entry_kept fetch u item")
    case True
    with Cons.prems have "filter_loop fetch u rest (acc @ [item]) = Some out"
      by (auto simp: entry_kept_def split: if_splits)
    from Cons.IH[OF this] True show ?thesis by simp
  next
    case False
    with Cons.prems have "filter_loop fetch u rest acc = Some out"
      by (auto simp: entry_kept_def split: if_splits option.splits)
    from Cons.IH[OF this] False show ?thesis by simp
  qed
qed

section \<open>The thread builder: indexing and linking\<close>

lemma index_other: "u \<notin> page_uris xs \<Longrightarrow> fold index_post xs m u = m u"
  by (induction xs arbitrary: m) (auto simp: page_uris_def index_post_def)

lemma dom_index: "dom (fold index_post xs m) = dom m \<union> page_uris xs"
  by (induction xs arbitrary: m) (auto simp: page_uris_def index_post_def)

lemma index_fresh_node:
  "u \<in> page_uris xs \<Longrightarrow>
   \<exists>e \<in> set xs. entry_uri e = u \<and>
     fold index_post xs m u = Some \<lparr>node_item = e, node_children = [], node_isThreadRoot = False\<rparr>"
proof (induction xs arbitrary: m)
  case Nil
  then show ?case by (simp add: page_uris_def)
next
  case (Cons x xs)
  show ?case
  proof (cases "u \<in> page_uris xs")
    case True
    from Cons.IH[OF this, of "index_post x m"] show ?thesis by auto
  next
    case False
    with Cons.prems have ux: "entry_uri x = u" by (auto simp: page_uris_def)
    have "fold index_post xs (index_post x m) u = index_post x m u"
      by (rule index_other[OF False])
    then have "fold index_post (x # xs) m u =
        Some \<lparr>node_item = x, node_children = [], node_isThreadRoot = False\<rparr>"
      using ux by (simp add: index_post_def)
    then show ?thesis using ux by (intro bexI[of _ x]) simp_all
  qed
qed

lemma index_distinct_node:
  assumes "distinct (map entry_uri xs)" "e \<in> set xs"
  shows "fold index_post xs m (entry_uri e) =
           Some \<lparr>node_item = e, node_children = [], node_isThreadRoot = False\<rparr>"
proof -
  have "entry_uri e \<in> page_uris xs" using assms(2) by (auto simp: page_uris_def)
  from index_fresh_node[OF this, of m] obtain e' where e': "e' \<in> set xs" "entry_uri e' = entry_uri e"
    "fold index_post xs m (entry_uri e) = Some \<lparr>node_item = e', node_children = [], node_isThreadRoot = False\<rparr>"
    by auto
  have "inj_on entry_uri (set xs)" using assms(1) by (simp add: distinct_map)
  then have "e' = e" using e'(1,2) assms(2) by (auto dest: inj_onD)
  then show ?thesis using e'(3) by simp
qed

lemma link_step:
  assumes "entry_uri x \<in> dom (fst st)"
  shows "linked_to (dom (fst st)) [x] st (link_post x st)"
proof -
  obtain m rs where st: "st = (m, rs)" by (cases st)
  from assms st obtain pd where pd: "m (entry_uri x) = Some pd" by auto
  show ?thesis
  proof (cases "parent_in_page (dom m) x")
    case True
    then obtain r parent where r: "entry_reply x = Some r" "m (parent_uri r) = Some parent"
      by (auto simp: parent_in_page_def split: option.splits)
    then have "link_post x st = (m(parent_uri r \<mapsto> parent\<lparr>node_children := node_children parent @ [entry_uri x]\<rparr>), rs)"
      using pd st by (simp add: link_post_def)
    then show ?thesis using True r st
      by (auto simp: linked_to_def feed_roots_def feed_replies_def replies_to_def)
  next
    case False
    then have "link_post x st = (m(entry_uri x \<mapsto> pd\<lparr>node_isThreadRoot := True\<rparr>), rs @ [entry_uri x])"
      using pd st by (auto simp: link_post_def mark_root_def parent_in_page_def split: option.splits)
    then show ?thesis using False pd st
      by (auto simp: linked_to_def feed_roots_def feed_replies_def replies_to_def parent_in_page_def
               split: option.splits)
  qed
qed

lemma linked_to_trans:
  assumes "linked_to uris xs st st1" "linked_to uris ys st1 st2"
  shows "linked_to uris (xs @ ys) st st2"
  unfolding linked_to_def
proof (intro conjI allI impI)
  show "snd st2 = snd st @ feed_roots uris (xs @ ys)"
    using assms by (simp add: linked_to_def feed_roots_def)
  show "dom (fst st2) = uris" using assms by (simp add: linked_to_def)
  fix u n assume "fst st u = Some n"
  with assms(1) obtain n1 where n1: "fst st1 u = Some n1" "node_item n1 = node_item n"
    "node_children n1 = node_children n @ feed_replies u xs"
    "node_isThreadRoot n1 \<longleftrightarrow> node_isThreadRoot n \<or> u \<in> set (feed_roots uris xs)"
    unfolding linked_to_def by blast
  from assms(2) n1(1) obtain n2 where n2: "fst st2 u = Some n2" "node_item n2 = node_item n1"
    "node_children n2 = node_children n1 @ feed_replies u ys"
    "node_isThreadRoot n2 \<longleftrightarrow> node_isThreadRoot n1 \<or> u \<in> set (feed_roots uris ys)"
    unfolding linked_to_def by blast
  show "\<exists>n'. fst st2 u = Some n' \<and> node_item n' = node_item n \<and>
              node_children n' = node_children n @ feed_replies u (xs @ ys) \<and>
              (node_isThreadRoot n' \<longleftrightarrow> node_isThreadRoot n \<or> u \<in> set (feed_roots uris (xs @ ys)))"
    using n1 n2 by (auto simp: feed_replies_def feed_roots_def)
qed

lemma linked_to_nil: "dom (fst st) = uris \<Longrightarrow> linked_to uris [] st st"
  by (simp add: linked_to_def feed_roots_def feed_replies_def)

lemma link_fold:
  assumes "page_uris xs \<subseteq> dom (fst st)"
  shows "linked_to (dom (fst st)) xs st (fold link_post xs st)"
  using assms
proof (induction xs arbitrary: st)
  case Nil
  then show ?case by (simp add: linked_to_nil)
next
  case (Cons x xs)
  have x: "entry_uri x \<in> dom (fst st)" using Cons.prems by (auto simp: page_uris_def)
  have s1: "linked_to (dom (fst st)) [x] st (link_post x st)" by (rule link_step[OF x])
  then have d: "dom (fst (link_post x st)) = dom (fst st)" by (simp add: linked_to_def)
  have "page_uris xs \<subseteq> dom (fst (link_post x st))" using Cons.prems d by (auto simp: page_uris_def)
  from Cons.IH[OF this] have "linked_to (dom (fst st)) xs (link_post x st) (fold link_post xs (link_post x st))"
    by (simp add: d)
  from linked_to_trans[OF s1 this] show ?case by simp
qed

lemma build_threads_result:
  assumes "build_threads posts = (m, rs)"
  shows "rs = feed_roots (page_uris posts) posts" 
    and "dom m = page_uris posts"
    and "u \<in> page_uris posts \<Longrightarrow>
          \<exists>e \<in> set posts. entry_uri e = u \<and>
             m u = Some \<lparr>node_item = e, node_children = feed_replies u posts,
                        node_isThreadRoot = (u \<in> set rs)\<rparr>"
    and "distinct (map entry_uri posts) \<Longrightarrow> e \<in> set posts \<Longrightarrow>
             m (entry_uri e) = Some \<lparr>node_item = e, node_children = feed_replies (entry_uri e) posts,
                        node_isThreadRoot = (entry_uri e \<in> set rs)\<rparr>"
proof -
  let ?m0 = "fold index_post posts Map.empty"
  have d0: "dom ?m0 = page_uris posts" by (simp add: dom_index)
  have "linked_to (dom (fst (?m0, []::string list))) posts (?m0, []) (fold link_post posts (?m0, []))"
    by (rule link_fold) (simp add: d0)
  then have L: "linked_to (page_uris posts) posts (?m0, []) (m, rs)"
    using assms d0 by (simp add: build_threads_def)
  show rs: "rs = feed_roots (page_uris posts) posts" using L by (simp add: linked_to_def)
  show "dom m = page_uris posts" using L by (simp add: linked_to_def)
  have *: "m v = Some \<lparr>node_item = e, node_children = feed_replies v posts,
                        node_isThreadRoot = (v \<in> set rs)\<rparr>"
    if e: "?m0 v = Some \<lparr>node_item = e, node_children = [], node_isThreadRoot = False\<rparr>" for v e
  proof -
    from L e obtain n' where "m v = Some n'" "node_item n' = e" "node_children n' = feed_replies v posts"
      "node_isThreadRoot n' \<longleftrightarrow> v \<in> set rs"
      unfolding linked_to_def rs by fastforce
    then show ?thesis by (cases n') auto
  qed
  show "\<exists>e \<in> set posts. entry_uri e = u \<and>
             m u = Some \<lparr>node_item = e, node_children = feed_replies u posts,
                        node_isThreadRoot = (u \<in> set rs)\<rparr>" if "u \<in> page_uris posts"
    using index_fresh_node[OF that, of Map.empty] * by blast
  show "m (entry_uri e) = Some \<lparr>node_item = e, node_children = feed_replies (entry_uri e) posts,
                        node_isThreadRoot = (entry_uri e \<in> set rs)\<rparr>"
    if "distinct (map entry_uri posts)" "e \<in> set posts"
    using index_distinct_node[OF that, of Map.empty] *[where v = "entry_uri e"] 
    by blast
qed

section \<open>The thread builder: sorting\<close>

lemma sorted_from_refl: "sorted_from m m"
  by (auto simp: sorted_from_def split: option.splits)

lemma sorted_from_time: 
  assumes "sorted_from m m'" shows "node_time m' = node_time m"
proof
  fix u
  from assms have "case m u of None \<Rightarrow> m' u = None | Some n \<Rightarrow> m' u = Some n \<or> m' u = Some (sort_node m n)"
    by (simp add: sorted_from_def)
  then show "node_time m' u = node_time m u"
    by (auto simp: node_time_def sort_node_def split: option.splits)
qed

lemma sort_node_idem: "sort_node m (sort_node m n) = sort_node m n"
  by (simp add: sort_node_def sort_key_id_if_sorted)

lemma sorted_from_cases:
  "sorted_from m m' \<Longrightarrow> m u = None \<Longrightarrow> m' u = None"
  "sorted_from m m' \<Longrightarrow> m u = Some n \<Longrightarrow> m' u = Some n \<or> m' u = Some (sort_node m n)"
  by (auto simp: sorted_from_def split: option.splits dest: spec[of _ u])

lemma sorted_from_trans:
  assumes "sorted_from m m1" "sorted_from m1 m2"
  shows "sorted_from m m2"
proof -
  have t: "node_time m1 = node_time m" using assms(1) by (rule sorted_from_time)
  have s: "sort_node m1 n = sort_node m n" for n by (simp add: sort_node_def t)
  have "m2 u = None" if "m u = None" for u
    using sorted_from_cases(1)[OF assms(2) sorted_from_cases(1)[OF assms(1) that]] .
  moreover have "m2 u = Some n \<or> m2 u = Some (sort_node m n)" if "m u = Some n" for u n
  proof -
    from sorted_from_cases(2)[OF assms(1) that]
    show ?thesis
    proof
      assume "m1 u = Some n"
      from sorted_from_cases(2)[OF assms(2) this] show ?thesis by (simp only: s)
    next
      assume "m1 u = Some (sort_node m n)"
      from sorted_from_cases(2)[OF assms(2) this] show ?thesis
        by (simp only: s sort_node_idem) simp
    qed
  qed
  ultimately show ?thesis by (auto simp: sorted_from_def split: option.splits)
qed

lemma sorted_from_update:
  "m u = Some n \<Longrightarrow> sorted_from m (m(u \<mapsto> n\<lparr>node_children := sort_key (node_time m) (node_children n)\<rparr>))"
  by (auto simp: sorted_from_def sort_node_def split: option.splits)

lemma sort_sorted_from:
  "(sortThreadChildren k u m = Some m' \<longrightarrow> sorted_from m m')"
  "(sortEach k us m = Some m' \<longrightarrow> sorted_from m m')"
proof (induction k u m and k us m arbitrary: m' and m' rule: sortThreadChildren_sortEach.induct)
  case (1 thread postMap)
  then show ?case by simp
next
  case (2 depth thread postMap)
  show ?case
  proof (cases "postMap thread")
    case None
    then show ?thesis by (simp add: sorted_from_refl)
  next
    case (Some n)
    show ?thesis
    proof
      assume a: "sortThreadChildren (Suc depth) thread postMap = Some m'"
      let ?cs = "sort_key (node_time postMap) (node_children n)"
      let ?m1 = "postMap(thread \<mapsto> n\<lparr>node_children := ?cs\<rparr>)"
      from a Some have "sortEach depth ?cs ?m1 = Some m'" by (simp add: Let_def del: fun_upd_apply)
      with "2.IH"[OF Some refl, of m'] have "sorted_from ?m1 m'" by blast
      with sorted_from_update[of postMap thread n, OF Some]
      show "sorted_from postMap m'" by (rule sorted_from_trans)
    qed
  qed
next
  case (3 depth postMap)
  then show ?case by (simp add: sorted_from_refl)
next
  case (4 depth child rest postMap)
  show ?case
  proof
    assume a: "sortEach depth (child # rest) postMap = Some m'"
    then obtain m1 where m1: "sortThreadChildren depth child postMap = Some m1"
      "sortEach depth rest m1 = Some m'" by (auto split: option.splits)
    from "4.IH"(1)[of m1] m1 have "sorted_from postMap m1" by simp
    moreover from "4.IH"(2)[OF m1(1), of m'] m1 have "sorted_from m1 m'" by simp
    ultimately show "sorted_from postMap m'" by (rule sorted_from_trans)
  qed
qed

lemma sorted_from_edges:
  assumes "sorted_from m m'" shows "child_edges m' = child_edges m"
proof -
  have "(\<exists>n. m' u = Some n \<and> v \<in> set (node_children n)) \<longleftrightarrow>
        (\<exists>n. m u = Some n \<and> v \<in> set (node_children n))" for u v
  proof -
    from assms have "case m u of None \<Rightarrow> m' u = None | Some n \<Rightarrow> m' u = Some n \<or> m' u = Some (sort_node m n)"
      by (simp add: sorted_from_def)
    then show ?thesis by (auto simp: sort_node_def split: option.splits)
  qed
  then show ?thesis by (simp add: child_edges_def)
qed

lemma sorted_from_keeps_sorted:
  assumes "sorted_from m m'" "children_sorted m u"
  shows "children_sorted m' u"
proof -
  have t: "node_time m' = node_time m" using assms(1) by (rule sorted_from_time)
  from assms(1) have "case m u of None \<Rightarrow> m' u = None | Some n \<Rightarrow> m' u = Some n \<or> m' u = Some (sort_node m n)"
    by (simp add: sorted_from_def)
  then show ?thesis using assms(2)
    by (auto simp: children_sorted_def t sort_node_def split: option.splits)
qed

lemma sorted_from_children:
  assumes "sorted_from m m'" "children_sorted m' u" "m u = Some n"
  shows "m' u = Some (sort_node m n)"
proof -
  have t: "node_time m' = node_time m" using assms(1) by (rule sorted_from_time)
  from assms(1,3) have "m' u = Some n \<or> m' u = Some (sort_node m n)"
    by (auto simp: sorted_from_def split: option.splits dest: spec[of _ u])
  then show ?thesis
  proof
    assume a: "m' u = Some n"
    with assms(2) have "sorted (map (node_time m) (node_children n))"
      by (simp add: children_sorted_def t)
    then have "sort_node m n = n" by (simp add: sort_node_def sort_key_id_if_sorted)
    with a show ?thesis by simp
  qed simp
qed

lemma sort_visits:
  "(sortThreadChildren k u m = Some m' \<longrightarrow> (\<forall>v. (u, v) \<in> (child_edges m)\<^sup>* \<longrightarrow> children_sorted m' v))"
  "(sortEach k us m = Some m' \<longrightarrow> (\<forall>u \<in> set us. \<forall>v. (u, v) \<in> (child_edges m)\<^sup>* \<longrightarrow> children_sorted m' v))"
proof (induction k u m and k us m arbitrary: m' and m' rule: sortThreadChildren_sortEach.induct)
  case (1 thread postMap)
  then show ?case by simp
next
  case (2 depth thread postMap)
  show ?case
  proof (intro impI allI)
    fix v
    assume a: "sortThreadChildren (Suc depth) thread postMap = Some m'"
      and r: "(thread, v) \<in> (child_edges postMap)\<^sup>*"
    show "children_sorted m' v"
    proof (cases "postMap thread")
      case None
      then have "\<And>w. (thread, w) \<notin> child_edges postMap" by (simp add: child_edges_def)
      with r have "v = thread" by (auto elim: converse_rtranclE)
      moreover from a None have "m' = postMap" by simp
      ultimately show ?thesis using None by (simp add: children_sorted_def)
    next
      case (Some n)
      let ?cs = "sort_key (node_time postMap) (node_children n)"
      let ?m1 = "postMap(thread \<mapsto> n\<lparr>node_children := ?cs\<rparr>)"
      from a Some have e: "sortEach depth ?cs ?m1 = Some m'" by (simp add: Let_def del: fun_upd_apply)
      have s1: "sorted_from postMap ?m1" by (rule sorted_from_update[of postMap thread n, OF Some])
      have s2: "sorted_from ?m1 m'" using sort_sorted_from(2) e by blast
      have t1: "node_time ?m1 = node_time postMap" using s1 by (rule sorted_from_time)
      have ed: "child_edges ?m1 = child_edges postMap" using s1 by (rule sorted_from_edges)
      have "children_sorted ?m1 thread" by (simp add: children_sorted_def t1)
      then have self: "children_sorted m' thread" using s2 sorted_from_keeps_sorted by blast
      from r show ?thesis
      proof (cases rule: converse_rtranclE)
        case base
        then show ?thesis using self by simp
      next
        case (step c)
        then have "c \<in> set ?cs" using Some by (auto simp: child_edges_def)
        moreover have "(c, v) \<in> (child_edges ?m1)\<^sup>*" using step(2) ed by simp
        ultimately show ?thesis using "2.IH"[OF Some refl, of m'] e by blast
      qed
    qed
  qed
next
  case (3 depth postMap)
  then show ?case by simp
next
  case (4 depth child rest postMap)
  show ?case
  proof (intro impI ballI allI)
    fix u v
    assume a: "sortEach depth (child # rest) postMap = Some m'"
      and u: "u \<in> set (child # rest)" and r: "(u, v) \<in> (child_edges postMap)\<^sup>*"
    from a obtain m1 where m1: "sortThreadChildren depth child postMap = Some m1"
      "sortEach depth rest m1 = Some m'" by (auto split: option.splits)
    have s1: "sorted_from postMap m1" using sort_sorted_from(1) m1(1) by blast
    have s2: "sorted_from m1 m'" using sort_sorted_from(2) m1(2) by blast
    have ed: "child_edges m1 = child_edges postMap" using s1 by (rule sorted_from_edges)
    show "children_sorted m' v"
    proof (cases "u \<in> set rest")
      case True
      then show ?thesis using "4.IH"(2)[OF m1(1), of m'] m1(2) r ed by auto
    next
      case False
      with u have "u = child" by simp
      then have "children_sorted m1 v" using "4.IH"(1)[of m1] m1(1) r by blast
      then show ?thesis using s2 sorted_from_keeps_sorted by blast
    qed
  qed
qed

lemma group_result:
  assumes "groupPostsIntoThreads depth posts = Some (postMap, roots)"
  obtains m1 rs where "build_threads posts = (m1, rs)"
    "roots = sort_key (\<lambda>u. - node_time m1 u) rs"
    "sortEach depth roots m1 = Some postMap"
    "sorted_from m1 postMap"
proof -
  obtain m1 rs where b: "build_threads posts = (m1, rs)" by (cases "build_threads posts")
  with assms have r: "roots = sort_key (\<lambda>u. - node_time m1 u) rs"
    and s: "sortEach depth roots m1 = Some postMap"
    by (auto simp: groupPostsIntoThreads_def Let_def split: option.splits)
  from s sort_sorted_from(2) have "sorted_from m1 postMap" by blast
  with b r s that show ?thesis by blast
qed

lemma group_node:
  assumes "groupPostsIntoThreads depth posts = Some (postMap, roots)"
    and "u \<in> page_uris posts"
  shows "\<exists>e \<in> set posts. entry_uri e = u \<and>
           (\<exists>n. postMap u = Some n \<and> node_item n = e \<and>
                 set (node_children n) = set (feed_replies u posts) \<and>
                 (node_isThreadRoot n \<longleftrightarrow> u \<in> set roots))"
proof -
  from assms(1) obtain m1 rs where g: "build_threads posts = (m1, rs)"
    "roots = sort_key (\<lambda>u. - node_time m1 u) rs" "sorted_from m1 postMap"
    by (rule group_result)
  from build_threads_result(3)[OF g(1) assms(2)] obtain e where e: "e \<in> set posts" "entry_uri e = u"
    "m1 u = Some \<lparr>node_item = e, node_children = feed_replies u posts,
                        node_isThreadRoot = (u \<in> set rs)\<rparr>" by blast
  from sorted_from_cases(2)[OF g(3) e(3)]
  have "\<exists>n. postMap u = Some n \<and> node_item n = e \<and>
                 set (node_children n) = set (feed_replies u posts) \<and>
                 (node_isThreadRoot n \<longleftrightarrow> u \<in> set roots)"
    by (auto simp: sort_node_def g(2))
  with e show ?thesis by blast
qed

lemma group_roots:
  assumes "groupPostsIntoThreads depth posts = Some (postMap, roots)"
  shows "set roots = set (feed_roots (page_uris posts) posts)"
proof -
  from assms obtain m1 rs where g: "build_threads posts = (m1, rs)"
    "roots = sort_key (\<lambda>u. - node_time m1 u) rs"
    by (rule group_result)
  show ?thesis using build_threads_result(1)[OF g(1)] g(2) by simp
qed

lemma distinct_same_entry:
  "distinct (map entry_uri posts) \<Longrightarrow> e \<in> set posts \<Longrightarrow> e' \<in> set posts \<Longrightarrow>
   entry_uri e' = entry_uri e \<Longrightarrow> e' = e"
  by (auto simp: distinct_map dest: inj_onD)

section \<open>The cache\<close>

lemma get_fresh:
  "storage (getKey key) = Some (Serialised item) \<Longrightarrow> \<not> isExpired now item \<Longrightarrow>
   cache_get now key storage = (Some (cache_data item), storage)"
  by (simp add: cache_get_def)

lemma get_expired:
  "storage (getKey key) = Some (Serialised item) \<Longrightarrow> isExpired now item \<Longrightarrow>
   cache_get now key storage = (None, cache_delete key storage)"
  by (simp add: cache_get_def)

lemma get_missing:
  "storage (getKey key) = None \<Longrightarrow> cache_get now' key storage = (None, storage)"
  by (simp add: cache_get_def)

lemma get_after_delete: "cache_get now' key (cache_delete key storage) = (None, cache_delete key storage)"
  by (simp add: cache_get_def cache_delete_def)

lemma set_failed: "cache_set False now key v ttl storage = storage"
  by (simp add: cache_set_def)

lemma set_then_get:
  "cache_get now' key (cache_set True now key v ttl storage) =
    (if now' > now + (case ttl of None \<Rightarrow> DEFAULT_TTL | Some t \<Rightarrow> if t = 0 then DEFAULT_TTL else t)
     then (None, cache_delete key (cache_set True now key v ttl storage))
     else (Some v, cache_set True now key v ttl storage))"
  by (simp add: cache_get_def cache_set_def isExpired_def)

lemma appendPosts_fresh:
  assumes "getPosts now handle storage = (Some existing, storage)"
  shows "appendPosts setItem_ok now handle newPosts newCursor storage =
     (if \<forall>t \<in> set newPosts. thread_post_uri t \<in> thread_post_uri ` set (cached_posts existing)
      then storage
      else cache_set setItem_ok now (posts_key handle)
             \<lparr>cached_posts = cached_posts existing @
                 filter (\<lambda>t. thread_post_uri t \<notin> thread_post_uri ` set (cached_posts existing)) newPosts,
              cached_cursor = newCursor, cached_handle = handle\<rparr> (Some POSTS_TTL) storage)"
  using assms by (auto simp: appendPosts_def Let_def filter_empty_conv)

lemma getPosts_after_set:
  "getPosts now handle (cache_set True now (posts_key handle) d (Some POSTS_TTL) storage) =
     (Some d, cache_set True now (posts_key handle) d (Some POSTS_TTL) storage)"
  by (simp add: getPosts_def set_then_get POSTS_TTL_def)

section \<open>Claims about the filter\<close>

lemmas ex_defs = ex_me_def ex_other_def ex_post_def ex_entry_def ex_root_def ex_self_reply_def
  ex_foreign_root_def ex_reply_to_other_def ex_reply_no_post_def ex_reply_not_ok_def ex_net_def
  ex_repost_def ex_feed_def


lemmas filter_eval = filterPostsForSelfOnlyThreads_def isReplyInSelfOnlyThread_def
  reply_chain_loop.simps chain_verdict_def is_repost_reason_def is_repost_record_def



text \<open>
  C2, the failing input: the parent request of a reply by the target account answers
  with status ok and a thread object without \<^verbatim>\<open>post\<close>. The loop ends, the set of checked
  authors is the target account alone, and the filter keeps the reply.
\<close>

theorem reply_kept_when_lookup_returns_no_post:
  "ex_net ''at://gone/1'' = OkThread None \<and>
   isReplyInSelfOnlyThread ex_net ex_reply_no_post ex_me = Some True \<and>
   filterPostsForSelfOnlyThreads ex_net [ex_entry ex_reply_no_post] ex_me =
     Some [ex_entry ex_reply_no_post]"
  by (simp add: filter_eval ex_defs)

lemma reply_dropped_when_lookup_not_ok:
  "ex_net ''at://down/1'' = StatusNotOk \<and>
   filterPostsForSelfOnlyThreads ex_net [ex_entry ex_reply_not_ok] ex_me = Some []"
  by (simp add: filter_eval ex_defs)

lemma loop_fail_closed:
  assumes "parent_chain fetch (p # ps)"
    and "record_reply (post_record (last (p # ps))) = Some r"
    and "fetch (parent_uri r) \<in> {FetchThrows, StatusNotOk, OkNoThread}"
  shows "reply_chain_loop fetch u (Some p) cs = Some False"
  using assms
proof (induction ps arbitrary: p cs)
  case Nil
  then show ?case
    by (subst reply_chain_loop.simps) (auto simp: Let_def)
next
  case (Cons q ps)
  from Cons.prems(1) obtain r' where r: "record_reply (post_record p) = Some r'"
    "fetch (parent_uri r') = OkThread (Some q)" and ch: "parent_chain fetch (q # ps)"
    by (auto split: option.splits)
  have "reply_chain_loop fetch u (Some q) (insert (author_did (post_author p)) cs) = Some False"
    using Cons.IH[OF ch] Cons.prems(2,3) by simp
  then show ?case using r
    by (subst reply_chain_loop.simps) (auto simp: Let_def)
qed

text \<open>
  C9 (amended). The walk has no depth bound. It returns exactly when the chain of
  fetched ancestors of the reply is finite, that is, when it reaches a post at which the
  loop body leaves the loop.
\<close>

theorem walk_returns_iff_chain_ends:
  "(\<exists>b. isReplyInSelfOnlyThread fetch p userDid = Some b) \<longleftrightarrow>
   (\<exists>ps. parent_chain fetch (p # ps) \<and> walk_stops_at fetch userDid (last (p # ps)))"
proof
  assume "\<exists>b. isReplyInSelfOnlyThread fetch p userDid = Some b"
  then obtain b where "reply_chain_loop fetch userDid (Some p) {} = Some b"
    by (auto simp: isReplyInSelfOnlyThread_def)
  from loop_stops_if_returns[OF this]
  show "\<exists>ps. parent_chain fetch (p # ps) \<and> walk_stops_at fetch userDid (last (p # ps))"
    by (simp add: chain_stops_def)
next
  assume "\<exists>ps. parent_chain fetch (p # ps) \<and> walk_stops_at fetch userDid (last (p # ps))"
  then obtain ps where "parent_chain fetch (p # ps)" "walk_stops_at fetch userDid (last (p # ps))"
    by blast
  then show "\<exists>b. isReplyInSelfOnlyThread fetch p userDid = Some b"
    unfolding isReplyInSelfOnlyThread_def by (rule loop_returns_if_stops)
qed

theorem walk_returns_iff_chain_ends_witness:
  "parent_chain ex_net (ex_self_reply # [ex_root]) \<and>
   walk_stops_at ex_net ex_me (last (ex_self_reply # [ex_root])) \<and>
   (\<exists>b. isReplyInSelfOnlyThread ex_net ex_self_reply ex_me = Some b)"
proof -
  have h: "parent_chain ex_net (ex_self_reply # [ex_root]) \<and>
           walk_stops_at ex_net ex_me (last (ex_self_reply # [ex_root]))"
    by (simp add: ex_defs walk_stops_at_def)
  then have "\<exists>ps. parent_chain ex_net (ex_self_reply # ps) \<and>
                  walk_stops_at ex_net ex_me (last (ex_self_reply # ps))" by blast
  with walk_returns_iff_chain_ends[of ex_net ex_self_reply ex_me] h show ?thesis by blast
qed

lemma cyclic_chain_same:
  "parent_chain ex_cyclic_net (p # ps) \<Longrightarrow> p = ex_cyclic_post \<Longrightarrow> last (p # ps) = ex_cyclic_post"
proof (induction ps arbitrary: p)
  case Nil
  then show ?case by simp
next
  case (Cons q ps)
  from Cons.prems(1) have ch: "parent_chain ex_cyclic_net (q # ps)" by simp
  from Cons.prems(1) have "q = ex_cyclic_post"
    by (auto simp: ex_cyclic_net_def split: option.splits)
  from Cons.IH[OF ch this] show ?case by simp
qed

text \<open>
  C9, counterexample to the claim as stated: a post whose parent reference leads back
  to itself. The walk does not return, neither with a rejection nor otherwise.
\<close>

theorem walk_runs_forever_counterexample:
  "isReplyInSelfOnlyThread ex_cyclic_net ex_cyclic_post ex_me = None"
proof (rule ccontr)
  assume "isReplyInSelfOnlyThread ex_cyclic_net ex_cyclic_post ex_me \<noteq> None"
  then obtain b where "reply_chain_loop ex_cyclic_net ex_me (Some ex_cyclic_post) {} = Some b"
    by (auto simp: isReplyInSelfOnlyThread_def)
  from loop_stops_if_returns[OF this] obtain ps where
    ch: "parent_chain ex_cyclic_net (ex_cyclic_post # ps)"
    and st: "walk_stops_at ex_cyclic_net ex_me (last (ex_cyclic_post # ps))"
    by (auto simp: chain_stops_def)
  from cyclic_chain_same[OF ch refl] st
  have "walk_stops_at ex_cyclic_net ex_me ex_cyclic_post" by simp
  then show False
    by (simp add: walk_stops_at_def ex_cyclic_net_def ex_cyclic_post_def ex_post_def)
qed

text \<open>
  C10. Whenever the filter returns, its result is the input feed with some entries
  left out: a subsequence of the input, namely the entries that pass the loop body's
  tests, in feed order.
\<close>

theorem filter_output_subseq:
  assumes "filterPostsForSelfOnlyThreads fetch feedItems userDid = Some out"
  shows "subseq out feedItems \<and> out = filter (entry_kept fetch userDid) feedItems"
proof -
  from assms have "out = filter (entry_kept fetch userDid) feedItems"
    using filter_loop_Some[of fetch userDid feedItems "[]" out]
    by (simp add: filterPostsForSelfOnlyThreads_def)
  then show ?thesis by simp
qed

theorem filter_output_subseq_witness:
  "filterPostsForSelfOnlyThreads ex_net ex_feed ex_me =
     Some [ex_entry ex_self_reply, ex_entry ex_root] \<and>
   subseq [ex_entry ex_self_reply, ex_entry ex_root] ex_feed"
proof -
  have run: "filterPostsForSelfOnlyThreads ex_net ex_feed ex_me =
               Some [ex_entry ex_self_reply, ex_entry ex_root]"
    by (simp add: filter_eval ex_defs)
  from filter_output_subseq[OF run] run show ?thesis by blast
qed

lemma filter_loop_returns:
  assumes "\<forall>item \<in> set items. chain_stops fetch u (Some (item_post item))"
  shows "\<exists>out. filter_loop fetch u items acc = Some out"
  using assms
proof (induction items arbitrary: acc)
  case Nil
  then show ?case by simp
next
  case (Cons item rest)
  from Cons.prems have "chain_stops fetch u (Some (item_post item))" by simp
  then obtain ps where "parent_chain fetch (item_post item # ps)"
    "walk_stops_at fetch u (last (item_post item # ps))" by (auto simp: chain_stops_def)
  then obtain b where b: "isReplyInSelfOnlyThread fetch (item_post item) u = Some b"
    unfolding isReplyInSelfOnlyThread_def by (blast dest: loop_returns_if_stops)
  have rest: "\<exists>out. filter_loop fetch u rest acc' = Some out" for acc'
    using Cons.IH Cons.prems by simp
  show ?case using b rest by simp
qed

section \<open>The thread builder returns on pages with distinct URIs\<close>

text \<open>
  When the URIs of a page are distinct, every object has at most one parent and no root
  has one, so no object below a root lies on a cycle of references. The recursion of
  \<^verbatim>\<open>sortThreadChildren\<close> then never nests deeper than the number of entries.
\<close>

lemma sort_returns:
  "(\<forall>a b. a \<in> S \<longrightarrow> (a, b) \<in> child_edges m \<longrightarrow> b \<in> S \<and> h b < h a) \<longrightarrow> u \<in> S \<longrightarrow> h u < k
     \<longrightarrow> sortThreadChildren k u m \<noteq> None"
  "(\<forall>a b. a \<in> S \<longrightarrow> (a, b) \<in> child_edges m \<longrightarrow> b \<in> S \<and> h b < h a) \<longrightarrow> set us \<subseteq> S \<longrightarrow>
     (\<forall>u \<in> set us. h u < k) \<longrightarrow> sortEach k us m \<noteq> None"
proof (induction k u m and k us m rule: sortThreadChildren_sortEach.induct)
  case (1 thread postMap)
  then show ?case by simp
next
  case (2 depth thread postMap)
  show ?case
  proof (intro impI)
    assume E: "\<forall>a b. a \<in> S \<longrightarrow> (a, b) \<in> child_edges postMap \<longrightarrow> b \<in> S \<and> h b < h a"
      and u: "thread \<in> S" and k: "h thread < Suc depth"
    show "sortThreadChildren (Suc depth) thread postMap \<noteq> None"
    proof (cases "postMap thread")
      case None
      then show ?thesis by simp
    next
      case (Some n)
      let ?cs = "sort_key (node_time postMap) (node_children n)"
      let ?m1 = "postMap(thread \<mapsto> n\<lparr>node_children := ?cs\<rparr>)"
      have s1: "sorted_from postMap ?m1" by (rule sorted_from_update[of postMap thread n, OF Some])
      have ed: "child_edges ?m1 = child_edges postMap" using s1 by (rule sorted_from_edges)
      have ch: "\<forall>c \<in> set ?cs. (thread, c) \<in> child_edges postMap"
        using Some by (auto simp: child_edges_def)
      have "set ?cs \<subseteq> S" using ch E u by blast
      moreover have "\<forall>c \<in> set ?cs. h c < depth" using ch E u k by fastforce
      moreover have "\<forall>a b. a \<in> S \<longrightarrow> (a, b) \<in> child_edges ?m1 \<longrightarrow> b \<in> S \<and> h b < h a"
        using E by (simp only: ed)
      ultimately have "sortEach depth ?cs ?m1 \<noteq> None"
        using "2.IH"[OF Some refl] by blast
      then show ?thesis using Some by (simp add: Let_def del: fun_upd_apply)
    qed
  qed
next
  case (3 depth postMap)
  then show ?case by simp
next
  case (4 depth child rest postMap)
  show ?case
  proof (intro impI)
    assume E: "\<forall>a b. a \<in> S \<longrightarrow> (a, b) \<in> child_edges postMap \<longrightarrow> b \<in> S \<and> h b < h a"
      and us: "set (child # rest) \<subseteq> S" and k: "\<forall>u \<in> set (child # rest). h u < depth"
    from "4.IH"(1) E us k obtain m1 where m1: "sortThreadChildren depth child postMap = Some m1"
      by auto
    have "sorted_from postMap m1" using sort_sorted_from(1) m1 by blast
    then have ed: "child_edges m1 = child_edges postMap" by (rule sorted_from_edges)
    have "\<forall>a b. a \<in> S \<longrightarrow> (a, b) \<in> child_edges m1 \<longrightarrow> b \<in> S \<and> h b < h a"
      using E by (simp only: ed)
    with "4.IH"(2)[OF m1] us k have "sortEach depth rest m1 \<noteq> None" by simp
    with m1 show "sortEach depth (child # rest) postMap \<noteq> None" by simp
  qed
qed

lemma no_cycle_below_source:
  assumes uniq: "\<And>a b c. (a, c) \<in> E \<Longrightarrow> (b, c) \<in> E \<Longrightarrow> a = b"
    and src: "\<And>a. (a, r) \<notin> E"
    and reach: "(r, v) \<in> E\<^sup>*"
  shows "(v, v) \<notin> E\<^sup>+"
  using reach
proof (induction rule: rtrancl_induct)
  case base
  show ?case
  proof
    assume "(r, r) \<in> E\<^sup>+"
    then obtain z where "(z, r) \<in> E" by (auto elim: tranclE)
    with src show False by blast
  qed
next
  case (step y z)
  show ?case
  proof
    assume "(z, z) \<in> E\<^sup>+"
    then obtain w where w: "(z, w) \<in> E\<^sup>*" "(w, z) \<in> E"
      by (auto elim: tranclE dest: trancl_into_rtrancl)
    from uniq[OF w(2) step.hyps(2)] have "w = y" .
    with w(1) step.hyps(2) have "(y, y) \<in> E\<^sup>+" by auto
    with step.IH show False by blast
  qed
qed

lemma descendants_edge:
  assumes "finite U" "E \<subseteq> U \<times> U" "(a, b) \<in> E" "(b, b) \<notin> E\<^sup>+"
  shows "card (descendants E b) < card (descendants E a)"
proof -
  have sub: "descendants E v \<subseteq> U" for v
    using assms(2) by (auto simp: descendants_def elim: tranclE)
  have "descendants E b \<subseteq> descendants E a"
    using assms(3) by (auto simp: descendants_def intro: trancl_into_trancl2)
  moreover have "b \<in> descendants E a" using assms(3) by (auto simp: descendants_def)
  moreover have "b \<notin> descendants E b" using assms(4) by (simp add: descendants_def)
  ultimately have "descendants E b \<subset> descendants E a" by blast
  moreover have "finite (descendants E a)" using sub assms(1) by (rule finite_subset)
  ultimately show ?thesis by (rule psubset_card_mono[rotated])
qed

lemma descendants_card:
  assumes "finite U" "E \<subseteq> U \<times> U"
  shows "card (descendants E v) \<le> card U"
proof -
  have "descendants E v \<subseteq> U"
    using assms(2) by (auto simp: descendants_def elim: tranclE)
  then show ?thesis using assms(1) by (rule card_mono[rotated])
qed


lemma build_edges:
  assumes "build_threads posts = (m, rs)"
  shows "child_edges m = {(u, v). u \<in> page_uris posts \<and> v \<in> set (feed_replies u posts)}"
proof -
  have "(\<exists>n. m u = Some n \<and> v \<in> set (node_children n)) \<longleftrightarrow>
        u \<in> page_uris posts \<and> v \<in> set (feed_replies u posts)" for u v
  proof (cases "u \<in> page_uris posts")
    case True
    from build_threads_result(3)[OF assms True] show ?thesis using True by auto
  next
    case False
    then have "m u = None" using build_threads_result(2)[OF assms] by auto
    then show ?thesis using False by simp
  qed
  then show ?thesis by (simp add: child_edges_def)
qed

lemma build_edges_in_page:
  assumes "build_threads posts = (m, rs)"
  shows "child_edges m \<subseteq> page_uris posts \<times> page_uris posts"
  unfolding build_edges[OF assms] by (auto simp: feed_replies_def page_uris_def)

lemma build_unique_parent:
  assumes "build_threads posts = (m, rs)" "distinct (map entry_uri posts)"
    and "(a, c) \<in> child_edges m" "(b, c) \<in> child_edges m"
  shows "a = b"
proof -
  from assms(3) obtain e1 where e1: "e1 \<in> set posts" "entry_uri e1 = c" "replies_to a e1"
    unfolding build_edges[OF assms(1)] by (auto simp: feed_replies_def)
  from assms(4) obtain e2 where e2: "e2 \<in> set posts" "entry_uri e2 = c" "replies_to b e2"
    unfolding build_edges[OF assms(1)] by (auto simp: feed_replies_def)
  have "e2 = e1" using distinct_same_entry[OF assms(2) e1(1) e2(1)] e1(2) e2(2) by simp
  with e1(3) e2(3) show ?thesis by (auto simp: replies_to_def split: option.splits)
qed

lemma build_root_no_parent:
  assumes "build_threads posts = (m, rs)" "distinct (map entry_uri posts)" "r \<in> set rs"
  shows "(a, r) \<notin> child_edges m"
proof
  assume "(a, r) \<in> child_edges m"
  then obtain e1 where e1: "e1 \<in> set posts" "entry_uri e1 = r" "replies_to a e1"
    and a: "a \<in> page_uris posts"
    unfolding build_edges[OF assms(1)] by (auto simp: feed_replies_def)
  from assms(3) obtain e2 where e2: "e2 \<in> set posts" "entry_uri e2 = r"
    "\<not> parent_in_page (page_uris posts) e2"
    unfolding build_threads_result(1)[OF assms(1)] by (auto simp: feed_roots_def)
  have "e2 = e1" using distinct_same_entry[OF assms(2) e1(1) e2(1)] e1(2) e2(2) by simp
  with e1(3) e2(3) a show False
    by (auto simp: replies_to_def parent_in_page_def split: option.splits)
qed

lemma groupPostsIntoThreads_returns:
  assumes d: "distinct (map entry_uri posts)" and k: "length posts < depth"
  shows "\<exists>postMap roots. groupPostsIntoThreads depth posts = Some (postMap, roots)"
proof -
  obtain m rs where b: "build_threads posts = (m, rs)" by (cases "build_threads posts")
  let ?E = "child_edges m"
  let ?U = "page_uris posts"
  let ?S = "{v. \<exists>r \<in> set rs. (r, v) \<in> ?E\<^sup>*}"
  let ?h = "\<lambda>v. card (descendants ?E v)"
  let ?roots = "sort_key (\<lambda>u. - node_time m u) rs"
  have fin: "finite ?U" by (simp add: page_uris_def)
  have sub: "?E \<subseteq> ?U \<times> ?U" by (rule build_edges_in_page[OF b])
  have cardU: "card ?U \<le> length posts"
    unfolding page_uris_def by (rule order_trans[OF card_image_le card_length]) simp
  have step: "\<forall>a b. a \<in> ?S \<longrightarrow> (a, b) \<in> ?E \<longrightarrow> b \<in> ?S \<and> ?h b < ?h a"
  proof (intro allI impI)
    fix a c assume a: "a \<in> ?S" and e: "(a, c) \<in> ?E"
    from a obtain r where r: "r \<in> set rs" "(r, a) \<in> ?E\<^sup>*" by blast
    then have rc: "(r, c) \<in> ?E\<^sup>*" using e by auto
    have "(c, c) \<notin> ?E\<^sup>+"
      using build_unique_parent[OF b d] build_root_no_parent[OF b d r(1)] rc
      by (rule no_cycle_below_source)
    from descendants_edge[OF fin sub e this] r(1) rc show "c \<in> ?S \<and> ?h c < ?h a" by blast
  qed
  have "set ?roots \<subseteq> ?S" by auto
  moreover have "\<forall>u \<in> set ?roots. ?h u < depth"
    using descendants_card[OF fin sub] cardU k by (meson le_less_trans order_trans)
  ultimately have "sortEach depth ?roots m \<noteq> None"
    using sort_returns(2)[of ?S m ?h ?roots depth] step by blast
  then obtain m' where "sortEach depth ?roots m = Some m'" by auto
  then have "groupPostsIntoThreads depth posts = Some (m', ?roots)"
    using b by (simp add: groupPostsIntoThreads_def)
  then show ?thesis by blast
qed

section \<open>Claims about the thread builder\<close>

lemmas page_defs = ex_page_def ex_r1_def ex_r2_def ex_c1_def ex_c2_def ex_orphan_def
  ex_entry_def ex_post_def ex_me_def

lemmas builder_eval = groupPostsIntoThreads_def build_threads_def index_post_def link_post_def
  mark_root_def node_time_def entry_uri_def entry_reply_def Let_def

lemma ex_page_uris: "map entry_uri ex_page = [''at://me/r1'', ''at://me/c1'', ''at://me/o1'', ''at://me/r2'', ''at://me/c2'']"
  by (simp add: page_defs entry_uri_def)

lemma ex_group_roots:
  "map_option snd (groupPostsIntoThreads (Suc (Suc 0)) ex_page) =
     Some [''at://me/r2'', ''at://me/o1'', ''at://me/r1'']"
  by (simp add: page_defs builder_eval)

lemma ex_group_children:
  "map_option (\<lambda>(m, roots). map_option node_children (m ''at://me/r2''))
     (groupPostsIntoThreads (Suc (Suc 0)) ex_page) =
     Some (Some [''at://me/c2'', ''at://me/c1''])"
  by (simp add: page_defs builder_eval)


lemma ex_page_distinct: "distinct (map entry_uri ex_page)"
  by (simp add: ex_page_uris)

lemma ex_page_parents:
  "parent_in_page (page_uris ex_page) ex_c1" "\<not> parent_in_page (page_uris ex_page) ex_orphan"
  "\<not> parent_in_page (page_uris ex_page) ex_r1"
  by (simp_all add: parent_in_page_def page_uris_def entry_reply_def entry_uri_def page_defs)

text \<open>
  C3. In the output of the thread builder, every entry of the page has its object under
  its URI. An entry whose reply parent URI is in the page's index is among the children
  of the parent's object; every other entry (no reply reference, or a parent outside
  the page) is among the roots and flagged as thread root. When the URIs of the page
  are distinct, the object of an entry wraps that entry, a child entry is not a root,
  and a root entry is nobody's child.
\<close>

theorem thread_attachment:
  assumes "groupPostsIntoThreads depth posts = Some (postMap, roots)"
    and "e \<in> set posts"
  shows "(\<exists>n. postMap (entry_uri e) = Some n \<and>
              (node_isThreadRoot n \<longleftrightarrow> entry_uri e \<in> set roots) \<and>
              (distinct (map entry_uri posts) \<longrightarrow> node_item n = e)) \<and>
         (parent_in_page (page_uris posts) e \<longrightarrow>
            (\<exists>r parent. entry_reply e = Some r \<and> postMap (parent_uri r) = Some parent \<and>
                         entry_uri e \<in> set (node_children parent))) \<and>
         (\<not> parent_in_page (page_uris posts) e \<longrightarrow> entry_uri e \<in> set roots) \<and>
         (distinct (map entry_uri posts) \<longrightarrow>
            (parent_in_page (page_uris posts) e \<longrightarrow> entry_uri e \<notin> set roots) \<and>
            (\<not> parent_in_page (page_uris posts) e \<longrightarrow>
               (\<forall>u n. postMap u = Some n \<longrightarrow> entry_uri e \<notin> set (node_children n))))"
proof (intro conjI impI)
  have ue: "entry_uri e \<in> page_uris posts" using assms(2) by (simp add: page_uris_def)
  from group_node[OF assms(1) ue] obtain e' n where e': "e' \<in> set posts" "entry_uri e' = entry_uri e"
    "postMap (entry_uri e) = Some n" "node_item n = e'"
    "node_isThreadRoot n \<longleftrightarrow> entry_uri e \<in> set roots" by blast
  then show "\<exists>n. postMap (entry_uri e) = Some n \<and>
              (node_isThreadRoot n \<longleftrightarrow> entry_uri e \<in> set roots) \<and>
              (distinct (map entry_uri posts) \<longrightarrow> node_item n = e)"
    using distinct_same_entry[OF _ assms(2) e'(1,2)] by blast
  have roots: "set roots = set (feed_roots (page_uris posts) posts)"
    by (rule group_roots[OF assms(1)])
  show "entry_uri e \<in> set roots" if "\<not> parent_in_page (page_uris posts) e"
    using that assms(2) by (auto simp: roots feed_roots_def)
  show "\<exists>r parent. entry_reply e = Some r \<and> postMap (parent_uri r) = Some parent \<and>
                         entry_uri e \<in> set (node_children parent)"
    if p: "parent_in_page (page_uris posts) e"
  proof -
    from p obtain r where r: "entry_reply e = Some r" "parent_uri r \<in> page_uris posts"
      by (auto simp: parent_in_page_def split: option.splits)
    from group_node[OF assms(1) r(2)] obtain parent where
      "postMap (parent_uri r) = Some parent"
      "set (node_children parent) = set (feed_replies (parent_uri r) posts)" by blast
    moreover have "entry_uri e \<in> set (feed_replies (parent_uri r) posts)"
      using assms(2) r(1) by (auto simp: feed_replies_def replies_to_def)
    ultimately show ?thesis using r(1) by blast
  qed
  show "entry_uri e \<notin> set roots"
    if d: "distinct (map entry_uri posts)" and p: "parent_in_page (page_uris posts) e"
  proof
    assume "entry_uri e \<in> set roots"
    then obtain e' where "e' \<in> set posts" "entry_uri e' = entry_uri e"
      "\<not> parent_in_page (page_uris posts) e'" by (auto simp: roots feed_roots_def)
    with distinct_same_entry[OF d assms(2)] p show False by blast
  qed
  show "\<forall>u n. postMap u = Some n \<longrightarrow> entry_uri e \<notin> set (node_children n)"
    if d: "distinct (map entry_uri posts)" and p: "\<not> parent_in_page (page_uris posts) e"
  proof (intro allI impI notI)
    fix u n assume n: "postMap u = Some n" and c: "entry_uri e \<in> set (node_children n)"
    from assms(1) obtain m1 rs where g: "build_threads posts = (m1, rs)" "sorted_from m1 postMap"
      by (rule group_result)
    have "u \<in> page_uris posts"
    proof (rule ccontr)
      assume "u \<notin> page_uris posts"
      then have "m1 u = None" using build_threads_result(2)[OF g(1)] by auto
      from sorted_from_cases(1)[OF g(2) this] n show False by simp
    qed
    from group_node[OF assms(1) this] n have "set (node_children n) = set (feed_replies u posts)"
      by auto
    with c obtain e' where "e' \<in> set posts" "entry_uri e' = entry_uri e" "replies_to u e'"
      by (auto simp: feed_replies_def)
    with distinct_same_entry[OF d assms(2)] have "replies_to u e" by blast
    then have "parent_in_page (page_uris posts) e" using \<open>u \<in> page_uris posts\<close>
      by (auto simp: replies_to_def parent_in_page_def split: option.splits)
    with p show False by simp
  qed
qed

theorem thread_attachment_witness:
  "\<exists>postMap roots.
     groupPostsIntoThreads (Suc (Suc 0)) ex_page = Some (postMap, roots) \<and>
     distinct (map entry_uri ex_page) \<and>
     ex_c1 \<in> set ex_page \<and> parent_in_page (page_uris ex_page) ex_c1 \<and>
     (\<exists>r parent. entry_reply ex_c1 = Some r \<and> postMap (parent_uri r) = Some parent \<and>
                  entry_uri ex_c1 \<in> set (node_children parent)) \<and>
     entry_uri ex_c1 \<notin> set roots \<and>
     ex_orphan \<in> set ex_page \<and> \<not> parent_in_page (page_uris ex_page) ex_orphan \<and>
     entry_uri ex_orphan \<in> set roots \<and>
     (\<exists>n. postMap (entry_uri ex_orphan) = Some n \<and> node_isThreadRoot n \<and> node_item n = ex_orphan) \<and>
     ex_r1 \<in> set ex_page \<and> \<not> parent_in_page (page_uris ex_page) ex_r1 \<and>
     entry_uri ex_r1 \<in> set roots"
proof -
  obtain postMap roots where g: "groupPostsIntoThreads (Suc (Suc 0)) ex_page = Some (postMap, roots)"
    using ex_group_roots by fastforce
  have m: "ex_c1 \<in> set ex_page" "ex_orphan \<in> set ex_page" "ex_r1 \<in> set ex_page"
    by (simp_all add: ex_page_def)
  note c = thread_attachment[OF g m(1)]
  note orphan = thread_attachment[OF g m(2)]
  note r = thread_attachment[OF g m(3)]
  from c ex_page_parents(1) ex_page_distinct
  have 1: "(\<exists>r parent. entry_reply ex_c1 = Some r \<and> postMap (parent_uri r) = Some parent \<and>
                  entry_uri ex_c1 \<in> set (node_children parent)) \<and> entry_uri ex_c1 \<notin> set roots"
    by blast
  from orphan ex_page_parents(2) ex_page_distinct
  have 2: "entry_uri ex_orphan \<in> set roots \<and>
     (\<exists>n. postMap (entry_uri ex_orphan) = Some n \<and> node_isThreadRoot n \<and> node_item n = ex_orphan)"
    by blast
  from r ex_page_parents(3) have 3: "entry_uri ex_r1 \<in> set roots" by blast
  from g m 1 2 3 ex_page_parents ex_page_distinct show ?thesis by blast
qed

text \<open>
  C4. In the output of the thread builder, the roots are in descending order of index
  time, and roots of equal time are in feed order. Every object that can be reached
  from a root has its children in ascending order of index time, and children of equal
  time are in feed order.
\<close>

theorem thread_order:
  assumes "groupPostsIntoThreads depth posts = Some (postMap, roots)"
  shows "sorted_wrt (\<lambda>a b. node_time postMap a \<ge> node_time postMap b) roots \<and>
         (\<forall>t. filter (\<lambda>u. node_time postMap u = t) roots =
              filter (\<lambda>u. node_time postMap u = t) (feed_roots (page_uris posts) posts)) \<and>
         (\<forall>r \<in> set roots. \<forall>u n. (r, u) \<in> (child_edges postMap)\<^sup>* \<longrightarrow> postMap u = Some n \<longrightarrow>
            sorted (map (node_time postMap) (node_children n)) \<and>
            (\<forall>t. filter (\<lambda>c. node_time postMap c = t) (node_children n) =
                 filter (\<lambda>c. node_time postMap c = t) (feed_replies u posts)))"
proof -
  from assms obtain m1 rs where g: "build_threads posts = (m1, rs)"
    "roots = sort_key (\<lambda>u. - node_time m1 u) rs"
    "sortEach depth roots m1 = Some postMap"
    "sorted_from m1 postMap"
    by (rule group_result)
  have t: "node_time postMap = node_time m1" using g(4) by (rule sorted_from_time)
  have ed: "child_edges postMap = child_edges m1" using g(4) by (rule sorted_from_edges)
  have rs: "rs = feed_roots (page_uris posts) posts" by (rule build_threads_result(1)[OF g(1)])
  have "sorted (map (\<lambda>u. - node_time m1 u) roots)" unfolding g(2) by (rule sorted_sort_key)
  then have a: "sorted_wrt (\<lambda>a b. node_time postMap a \<ge> node_time postMap b) roots"
    by (simp add: sorted_map t)
  have b: "filter (\<lambda>u. node_time postMap u = t') roots =
              filter (\<lambda>u. node_time postMap u = t') (feed_roots (page_uris posts) posts)" for t'
    using sort_key_stable[of "\<lambda>u. - node_time m1 u" "- t'" rs] by (simp add: g(2) t rs)
  have c: "sorted (map (node_time postMap) (node_children n)) \<and>
            (\<forall>t. filter (\<lambda>c. node_time postMap c = t) (node_children n) =
                 filter (\<lambda>c. node_time postMap c = t) (feed_replies u posts))"
    if r: "r \<in> set roots" and reach: "(r, u) \<in> (child_edges postMap)\<^sup>*" and n: "postMap u = Some n"
    for r u n
  proof -
    from reach have "(r, u) \<in> (child_edges m1)\<^sup>*" by (simp only: ed)
    with sort_visits(2)[of depth roots m1 postMap] g(3) r
    have cs: "children_sorted postMap u" by blast
    have "u \<in> page_uris posts"
    proof (rule ccontr)
      assume "u \<notin> page_uris posts"
      then have "m1 u = None" using build_threads_result(2)[OF g(1)] by auto
      from sorted_from_cases(1)[OF g(4) this] n show False by simp
    qed
    from build_threads_result(3)[OF g(1) this] obtain n1 where n1: "m1 u = Some n1"
      "node_children n1 = feed_replies u posts" by auto
    from sorted_from_children[OF g(4) cs n1(1)] n have "n = sort_node m1 n1" by simp
    then have ch: "node_children n = sort_key (node_time m1) (feed_replies u posts)"
      by (simp add: sort_node_def n1(2))
    have "sorted (map (node_time m1) (node_children n))"
      unfolding ch by (rule sorted_sort_key)
    moreover have "filter (\<lambda>c. node_time m1 c = t') (node_children n) =
                 filter (\<lambda>c. node_time m1 c = t') (feed_replies u posts)" for t'
      unfolding ch by (rule sort_key_stable)
    ultimately show ?thesis by (simp only: t) simp
  qed
  from a b c show ?thesis by blast
qed

theorem thread_order_witness:
  "\<exists>postMap roots n.
     groupPostsIntoThreads (Suc (Suc 0)) ex_page = Some (postMap, roots) \<and>
     roots = [''at://me/r2'', ''at://me/o1'', ''at://me/r1''] \<and>
     sorted_wrt (\<lambda>a b. node_time postMap a \<ge> node_time postMap b) roots \<and>
     postMap ''at://me/r2'' = Some n \<and>
     node_children n = [''at://me/c2'', ''at://me/c1''] \<and>
     sorted (map (node_time postMap) (node_children n))"
proof -
  obtain postMap roots where g: "groupPostsIntoThreads (Suc (Suc 0)) ex_page = Some (postMap, roots)"
    using ex_group_roots by fastforce
  from ex_group_roots g have roots: "roots = [''at://me/r2'', ''at://me/o1'', ''at://me/r1'']"
    by simp
  from ex_group_children g obtain n where n: "postMap ''at://me/r2'' = Some n"
    "node_children n = [''at://me/c2'', ''at://me/c1'']" by auto
  note ord = thread_order[OF g]
  from ord have 1: "sorted_wrt (\<lambda>a b. node_time postMap a \<ge> node_time postMap b) roots"
    by blast
  have "''at://me/r2'' \<in> set roots" by (simp add: roots)
  moreover have "(''at://me/r2'', ''at://me/r2'') \<in> (child_edges postMap)\<^sup>*" by simp
  ultimately have 2: "sorted (map (node_time postMap) (node_children n))"
    using ord n(1) by blast
  from g roots 1 n 2 show ?thesis by blast
qed

section \<open>Claims about the cache\<close>

lemmas cache_ex_defs = ex_thread_def ex_cached_def ex_cache_item_def ex_storage_def
  ex_corrupt_storage_def

lemmas cache_eval = cache_get_def cache_set_def cache_delete_def isExpired_def getKey_def
  CACHE_PREFIX_def POSTS_TTL_def DEFAULT_TTL_def posts_key_def getPosts_def setPosts_def
  appendPosts_def

text \<open>
  C5. For an entry stored under a key, \<^verbatim>\<open>get\<close> returns the stored value exactly when
  the current time is at most the stored timestamp plus the ttl, and then leaves the
  store as it is. Otherwise it returns absent and removes the entry, and every later
  \<^verbatim>\<open>get\<close> of the key returns absent and changes nothing.
\<close>

theorem cache_ttl:
  assumes "storage (getKey key) = Some (Serialised item)"
  shows "(fst (cache_get now key storage) = Some (cache_data item)
            \<longleftrightarrow> now \<le> cache_timestamp item + cache_expiry item) \<and>
         (now \<le> cache_timestamp item + cache_expiry item \<longrightarrow>
            cache_get now key storage = (Some (cache_data item), storage)) \<and>
         (\<not> now \<le> cache_timestamp item + cache_expiry item \<longrightarrow>
            fst (cache_get now key storage) = None \<and>
            snd (cache_get now key storage) (getKey key) = None \<and>
            (\<forall>later. cache_get later key (snd (cache_get now key storage)) =
                       (None, snd (cache_get now key storage))))"
proof (cases "isExpired now item")
  case True
  then have "\<not> now \<le> cache_timestamp item + cache_expiry item" by (simp add: isExpired_def)
  moreover have "cache_get now key storage = (None, cache_delete key storage)"
    using assms True by (rule get_expired)
  ultimately show ?thesis by (simp add: get_after_delete) (simp add: cache_delete_def)
next
  case False
  then have "now \<le> cache_timestamp item + cache_expiry item" by (simp add: isExpired_def)
  moreover have "cache_get now key storage = (Some (cache_data item), storage)"
    using assms False by (rule get_fresh)
  ultimately show ?thesis by simp
qed

theorem cache_ttl_witness:
  "ex_storage (getKey (posts_key ''alice'')) = Some (Serialised ex_cache_item) \<and>
   cache_get 120000 (posts_key ''alice'') ex_storage = (Some ex_cached, ex_storage) \<and>
   fst (cache_get 120001 (posts_key ''alice'') ex_storage) = None \<and>
   snd (cache_get 120001 (posts_key ''alice'') ex_storage) (getKey (posts_key ''alice'')) = None \<and>
   fst (cache_get 5 (posts_key ''alice'')
          (snd (cache_get 120001 (posts_key ''alice'') ex_storage))) = None"
proof -
  have h: "ex_storage (getKey (posts_key ''alice'')) = Some (Serialised ex_cache_item)"
    by (simp add: ex_storage_def)
  have fresh: "(120000::int) \<le> cache_timestamp ex_cache_item + cache_expiry ex_cache_item"
    by (simp add: ex_cache_item_def POSTS_TTL_def)
  have stale: "\<not> (120001::int) \<le> cache_timestamp ex_cache_item + cache_expiry ex_cache_item"
    by (simp add: ex_cache_item_def POSTS_TTL_def)
  have d: "cache_data ex_cache_item = ex_cached" by (simp add: ex_cache_item_def)
  from cache_ttl[where storage = ex_storage and key = "posts_key ''alice''"
      and item = ex_cache_item and now = 120000, OF h] fresh d
  have 1: "cache_get 120000 (posts_key ''alice'') ex_storage = (Some ex_cached, ex_storage)"
    by simp
  from cache_ttl[where storage = ex_storage and key = "posts_key ''alice''"
      and item = ex_cache_item and now = 120001, OF h] stale
  have 2: "fst (cache_get 120001 (posts_key ''alice'') ex_storage) = None \<and>
    snd (cache_get 120001 (posts_key ''alice'') ex_storage) (getKey (posts_key ''alice'')) = None \<and>
    (\<forall>later. cache_get later (posts_key ''alice'')
                (snd (cache_get 120001 (posts_key ''alice'') ex_storage)) =
              (None, snd (cache_get 120001 (posts_key ''alice'') ex_storage)))"
    by blast
  then have "fst (cache_get 5 (posts_key ''alice'')
          (snd (cache_get 120001 (posts_key ''alice'') ex_storage))) = None" by simp
  with h 1 2 show ?thesis by blast
qed

text \<open>
  C8 (amended). When the string under a key does not parse, \<^verbatim>\<open>get\<close> returns absent,
  as for a missing key, and leaves the store unchanged: the entry stays where it is,
  and every later \<^verbatim>\<open>get\<close> meets it again.
\<close>

theorem get_unparsable_keeps_entry:
  assumes "storage (getKey key) = Some Unparsable"
  shows "cache_get now key storage = (None, storage) \<and>
         snd (cache_get now key storage) (getKey key) = Some Unparsable \<and>
         fst (cache_get now key (storage(getKey key := None))) = fst (cache_get now key storage)"
  using assms by (simp add: cache_get_def)

theorem get_unparsable_keeps_entry_witness:
  "ex_corrupt_storage (getKey (posts_key ''alice'')) = Some Unparsable \<and>
   cache_get 7 (posts_key ''alice'') ex_corrupt_storage = (None, ex_corrupt_storage)"
proof -
  have h: "ex_corrupt_storage (getKey (posts_key ''alice'')) = Some Unparsable"
    by (simp add: ex_corrupt_storage_def)
  from get_unparsable_keeps_entry[where storage = ex_corrupt_storage
      and key = "posts_key ''alice''" and now = 7, OF h] h
  show ?thesis by blast
qed

text \<open>
  C8, counterexample to the claim as stated: after \<^verbatim>\<open>get\<close> has read an unparsable
  entry, the entry is still in the store.
\<close>

theorem unparsable_not_evicted_counterexample:
  "fst (cache_get 7 (posts_key ''alice'') ex_corrupt_storage) = None \<and>
   snd (cache_get 7 (posts_key ''alice'') ex_corrupt_storage) (getKey (posts_key ''alice'')) \<noteq> None"
  by (simp add: cache_get_def ex_corrupt_storage_def)

lemma getPosts_cases:
  "fst (getPosts now handle storage) \<noteq> None \<Longrightarrow>
   \<exists>d. getPosts now handle storage = (Some d, storage)"
  by (auto simp: getPosts_def cache_get_def split: option.splits stored.splits if_splits)

lemma getPosts_same_data:
  "fst (getPosts t1 handle storage) = Some d1 \<Longrightarrow> fst (getPosts t2 handle storage) = Some d2 \<Longrightarrow>
   d1 = d2"
  by (auto simp: getPosts_def cache_get_def split: option.splits stored.splits if_splits)

lemma appendPosts_result:
  assumes "getPosts now handle storage = (Some existing, storage)"
  shows "map_option cached_posts
           (fst (getPosts now handle (appendPosts True now handle newPosts newCursor storage))) =
         Some (cached_posts existing @
               filter (\<lambda>t. thread_post_uri t \<notin> thread_post_uri ` set (cached_posts existing))
                 newPosts)"
proof (cases "\<forall>t \<in> set newPosts. thread_post_uri t \<in> thread_post_uri ` set (cached_posts existing)")
  case True
  then have "appendPosts True now handle newPosts newCursor storage = storage"
    using appendPosts_fresh[OF assms, of True newPosts newCursor] by simp
  moreover have "filter (\<lambda>t. thread_post_uri t \<notin> thread_post_uri ` set (cached_posts existing))
                 newPosts = []"
    using True by (simp add: filter_empty_conv)
  ultimately show ?thesis using assms by simp
next
  case False
  then have "(\<forall>t \<in> set newPosts. thread_post_uri t \<in> thread_post_uri ` set (cached_posts existing))
               = False" by simp
  then show ?thesis
    using appendPosts_fresh[OF assms, of True newPosts newCursor]
    by (simp only: if_False) (simp add: getPosts_after_set)
qed

lemma appendPosts_failed_write:
  assumes "getPosts now handle storage = (Some existing, storage)"
  shows "appendPosts False now handle newPosts newCursor storage = storage"
  using appendPosts_fresh[OF assms, of False newPosts newCursor] by (simp add: set_failed)

lemma appendPosts_no_write:
  assumes "getPosts now handle storage = (Some existing, storage)"
    and "\<forall>t \<in> set newPosts. thread_post_uri t \<in> thread_post_uri ` set (cached_posts existing)"
  shows "appendPosts setItem_ok now handle newPosts newCursor storage = storage"
  using appendPosts_fresh[OF assms(1), of setItem_ok newPosts newCursor] assms(2) by simp

lemma appendPosts_again:
  assumes "getPosts now handle storage = (Some existing, storage)"
    and "fst (getPosts later handle (appendPosts True now handle newPosts newCursor storage)) \<noteq> None"
  shows "appendPosts setItem_ok' later handle newPosts cursor'
           (appendPosts True now handle newPosts newCursor storage) =
         appendPosts True now handle newPosts newCursor storage"
proof -
  let ?s1 = "appendPosts True now handle newPosts newCursor storage"
  from getPosts_cases[OF assms(2)] obtain d where d: "getPosts later handle ?s1 = (Some d, ?s1)"
    by blast
  have "map_option cached_posts (fst (getPosts now handle ?s1)) =
         Some (cached_posts existing @
               filter (\<lambda>t. thread_post_uri t \<notin> thread_post_uri ` set (cached_posts existing))
                 newPosts)"
    by (rule appendPosts_result[OF assms(1)])
  then obtain d0 where d0: "fst (getPosts now handle ?s1) = Some d0"
    "cached_posts d0 = cached_posts existing @
               filter (\<lambda>t. thread_post_uri t \<notin> thread_post_uri ` set (cached_posts existing))
                 newPosts" by auto
  from d have "fst (getPosts later handle ?s1) = Some d" by simp
  from getPosts_same_data[OF d0(1) this] d0(2)
  have "cached_posts d = cached_posts existing @
               filter (\<lambda>t. thread_post_uri t \<notin> thread_post_uri ` set (cached_posts existing))
                 newPosts" by simp
  then have "\<forall>t \<in> set newPosts. thread_post_uri t \<in> thread_post_uri ` set (cached_posts d)"
    by auto
  then show ?thesis by (rule appendPosts_no_write[OF d])
qed

text \<open>
  C6. With posts cached for the handle and not expired, and with \<open>setItem_ok\<close> telling
  whether the browser accepts the write of this call:
  \<^item> when the write is accepted, \<^verbatim>\<open>appendPosts\<close> leaves the cached list followed by those
    incoming threads whose URI is not cached yet, in their incoming order;
  \<^item> when the write is refused, \<^verbatim>\<open>set\<close> swallows the failure and the store stays as it
    was;
  \<^item> when every incoming URI is cached already, nothing is written, whatever the browser
    would have answered: the store (list, cursor, timestamp and ttl) is unchanged;
  \<^item> after a call whose write was accepted, a second call with the same page, at any
    time at which the entry is still alive, changes nothing.
\<close>

theorem appendPosts_dedup_idempotent:
  assumes "getPosts now handle storage = (Some existing, storage)"
  shows "(setItem_ok \<longrightarrow>
            map_option cached_posts
              (fst (getPosts now handle
                      (appendPosts setItem_ok now handle newPosts newCursor storage))) =
            Some (cached_posts existing @
                  filter (\<lambda>t. thread_post_uri t \<notin> thread_post_uri ` set (cached_posts existing))
                    newPosts)) \<and>
         (\<not> setItem_ok \<longrightarrow>
            appendPosts setItem_ok now handle newPosts newCursor storage = storage) \<and>
         ((\<forall>t \<in> set newPosts. thread_post_uri t \<in> thread_post_uri ` set (cached_posts existing))
            \<longrightarrow> appendPosts setItem_ok now handle newPosts newCursor storage = storage) \<and>
         (setItem_ok \<longrightarrow>
            (\<forall>later cursor' setItem_ok'.
               fst (getPosts later handle
                      (appendPosts setItem_ok now handle newPosts newCursor storage)) \<noteq> None
               \<longrightarrow> appendPosts setItem_ok' later handle newPosts cursor'
                     (appendPosts setItem_ok now handle newPosts newCursor storage) =
                   appendPosts setItem_ok now handle newPosts newCursor storage))"
proof (intro conjI allI impI)
  show "map_option cached_posts
              (fst (getPosts now handle
                      (appendPosts setItem_ok now handle newPosts newCursor storage))) =
            Some (cached_posts existing @
                  filter (\<lambda>t. thread_post_uri t \<notin> thread_post_uri ` set (cached_posts existing))
                    newPosts)"
    if setItem_ok
    using appendPosts_result[OF assms, of newPosts newCursor] that by simp
  show "appendPosts setItem_ok now handle newPosts newCursor storage = storage"
    if "\<not> setItem_ok"
    using appendPosts_failed_write[OF assms, of newPosts newCursor] that by simp
  show "appendPosts setItem_ok now handle newPosts newCursor storage = storage"
    if "\<forall>t \<in> set newPosts. thread_post_uri t \<in> thread_post_uri ` set (cached_posts existing)"
    using assms that by (rule appendPosts_no_write)
  show "appendPosts setItem_ok' later handle newPosts cursor'
                     (appendPosts setItem_ok now handle newPosts newCursor storage) =
                   appendPosts setItem_ok now handle newPosts newCursor storage"
    if setItem_ok
      and "fst (getPosts later handle
                  (appendPosts setItem_ok now handle newPosts newCursor storage)) \<noteq> None"
    for later cursor' setItem_ok'
    using appendPosts_again[OF assms, of later newPosts newCursor setItem_ok' cursor'] that
    by simp
qed

theorem appendPosts_dedup_idempotent_witness:
  "getPosts 1000 ''alice'' ex_storage = (Some ex_cached, ex_storage) \<and>
   map_option cached_posts
     (fst (getPosts 1000 ''alice''
        (appendPosts True 1000 ''alice'' [ex_thread ''at://me/B'', ex_thread ''at://me/C'']
           (Some ''cursor2'') ex_storage))) =
     Some [ex_thread ''at://me/A'', ex_thread ''at://me/B'', ex_thread ''at://me/C''] \<and>
   appendPosts False 1000 ''alice'' [ex_thread ''at://me/B'', ex_thread ''at://me/C'']
     (Some ''cursor2'') ex_storage = ex_storage \<and>
   appendPosts True 1000 ''alice'' [ex_thread ''at://me/A'', ex_thread ''at://me/B'']
     (Some ''cursor2'') ex_storage = ex_storage \<and>
   fst (getPosts 2000 ''alice''
          (appendPosts True 1000 ''alice'' [ex_thread ''at://me/B'', ex_thread ''at://me/C'']
             (Some ''cursor2'') ex_storage)) \<noteq> None \<and>
   appendPosts True 2000 ''alice'' [ex_thread ''at://me/B'', ex_thread ''at://me/C'']
     (Some ''cursor3'')
     (appendPosts True 1000 ''alice'' [ex_thread ''at://me/B'', ex_thread ''at://me/C'']
        (Some ''cursor2'') ex_storage) =
   appendPosts True 1000 ''alice'' [ex_thread ''at://me/B'', ex_thread ''at://me/C'']
     (Some ''cursor2'') ex_storage"
proof -
  have h: "getPosts 1000 ''alice'' ex_storage = (Some ex_cached, ex_storage)"
    by (simp add: cache_eval cache_ex_defs)
  note a = appendPosts_dedup_idempotent[OF h,
      of True "[ex_thread ''at://me/B'', ex_thread ''at://me/C'']" "Some ''cursor2''"]
  note f = appendPosts_dedup_idempotent[OF h,
      of False "[ex_thread ''at://me/B'', ex_thread ''at://me/C'']" "Some ''cursor2''"]
  note b = appendPosts_dedup_idempotent[OF h,
      of True "[ex_thread ''at://me/A'', ex_thread ''at://me/B'']" "Some ''cursor2''"]
  from a have 1: "map_option cached_posts
     (fst (getPosts 1000 ''alice''
        (appendPosts True 1000 ''alice'' [ex_thread ''at://me/B'', ex_thread ''at://me/C'']
           (Some ''cursor2'') ex_storage))) =
     Some [ex_thread ''at://me/A'', ex_thread ''at://me/B'', ex_thread ''at://me/C'']"
    by (simp add: ex_cached_def ex_thread_def)
  from f have 0: "appendPosts False 1000 ''alice'' [ex_thread ''at://me/B'', ex_thread ''at://me/C'']
     (Some ''cursor2'') ex_storage = ex_storage"
    by simp
  from b have 2: "appendPosts True 1000 ''alice'' [ex_thread ''at://me/A'', ex_thread ''at://me/B'']
     (Some ''cursor2'') ex_storage = ex_storage"
    by (simp add: ex_cached_def ex_thread_def)
  have alive: "fst (getPosts 2000 ''alice''
          (appendPosts True 1000 ''alice'' [ex_thread ''at://me/B'', ex_thread ''at://me/C'']
             (Some ''cursor2'') ex_storage)) \<noteq> None"
    by (simp add: cache_eval cache_ex_defs)
  with a have 3: "appendPosts True 2000 ''alice'' [ex_thread ''at://me/B'', ex_thread ''at://me/C'']
     (Some ''cursor3'')
     (appendPosts True 1000 ''alice'' [ex_thread ''at://me/B'', ex_thread ''at://me/C'']
        (Some ''cursor2'') ex_storage) =
   appendPosts True 1000 ''alice'' [ex_thread ''at://me/B'', ex_thread ''at://me/C'']
     (Some ''cursor2'') ex_storage"
    by blast
  from h 1 0 2 alive 3 show ?thesis by blast
qed

text \<open>
  C7, the failing input: the cache holds the threads A and B, and a later page that
  contains B again is written with \<^verbatim>\<open>setPosts(handle, page, cursor, false)\<close>; the browser
  accepts the write. The pagination branch concatenates, and the cached list holds B
  twice.
\<close>

theorem setPosts_duplicates_uri:
  "map_option (map thread_post_uri \<circ> cached_posts)
     (fst (getPosts 1000 ''alice''
        (setPosts True 1000 ''alice'' [ex_thread ''at://me/B'', ex_thread ''at://me/C'']
           (Some ''cursor2'') False ex_storage))) =
     Some [Some ''at://me/A'', Some ''at://me/B'', Some ''at://me/B'', Some ''at://me/C''] \<and>
   \<not> distinct [Some ''at://me/A'', Some ''at://me/B'', Some ''at://me/B'', Some ''at://me/C'']"
  by (simp add: cache_eval cache_ex_defs)

lemma setPosts_pagination_appends:
  assumes "getPosts now handle storage = (Some existing, storage)"
  shows "map_option cached_posts
           (fst (getPosts now handle (setPosts True now handle posts cursor False storage))) =
         Some (cached_posts existing @ posts)"
  using assms by (simp add: setPosts_def getPosts_after_set)

lemma setPosts_failed_write:
  "getPosts now handle (setPosts False now handle posts cursor isInitial storage) =
   getPosts now handle storage"
  by (auto simp: setPosts_def set_failed getPosts_def cache_get_def cache_delete_def
           split: option.splits stored.splits prod.splits)

end
